theory Spec2Isabelle
  imports Main "HOL-Library.Sublist" "HOL-Library.AList"
begin

section \<open>Strings and paths\<close>

text \<open>
  Python's \<^verbatim>\<open>s.split(c)\<close> for a one-character separator: the pieces between the
  separators, empty pieces kept, never the empty list (\<^verbatim>\<open>''.split('/') == ['']\<close>).
\<close>

fun split_on :: "char \<Rightarrow> string \<Rightarrow> string list" where
  "split_on c [] = [[]]"
| "split_on c (x # xs) =
     (if x = c then [] # split_on c xs
      else (case split_on c xs of [] \<Rightarrow> [[x]] | p # ps \<Rightarrow> (x # p) # ps))"

text \<open>Python's \<^verbatim>\<open>sep.join(parts)\<close>.\<close>

fun join :: "string \<Rightarrow> string list \<Rightarrow> string" where
  "join sep [] = []"
| "join sep [p] = p"
| "join sep (p # q # ps) = p @ sep @ join sep (q # ps)"

text \<open>\<^verbatim>\<open>re.sub(r'/+', '/', path)\<close>: every run of slashes becomes one slash.\<close>

fun squeeze_slashes :: "string \<Rightarrow> string" where
  "squeeze_slashes (x # y # xs) =
     (if x = CHR ''/'' \<and> y = CHR ''/'' then squeeze_slashes (y # xs)
      else x # squeeze_slashes (y # xs))"
| "squeeze_slashes xs = xs"

text \<open>
  \<^verbatim>\<open>_dirname\<close> and \<^verbatim>\<open>_basename\<close>. \<^verbatim>\<open>parts[:-1]\<close> is \<open>butlast\<close>,
  \<^verbatim>\<open>parts[-1]\<close> is \<open>last\<close>; \<open>split_on\<close> never returns the empty list, so neither
  is applied out of range.
\<close>

definition dirname :: "string \<Rightarrow> string" where
  "dirname path =
     (let parts = butlast (split_on CHR ''/'' (squeeze_slashes path))
      in if parts = [[]] then ''/'' else join ''/'' parts)"

definition basename :: "string \<Rightarrow> string" where
  "basename path = last (split_on CHR ''/'' (squeeze_slashes path))"

section \<open>The object store\<close>

text \<open>
  Nodes are Python objects with identity: \<^verbatim>\<open>parent\<close> and \<^verbatim>\<open>children\<close> hold
  references, and \<^verbatim>\<open>mv\<close>, \<^verbatim>\<open>rm\<close> and \<^verbatim>\<open>insert\<close> mutate the objects they reach.
  The model keeps an explicit store: a reference is a number, \<open>nodes\<close> maps references
  to node objects and \<open>next_ref\<close> is the next unused reference. Leaf values are
  objects too (tensors, mutable in place), kept in a second store \<open>vals\<close>.

  The three classes \<^verbatim>\<open>DictNode\<close>, \<^verbatim>\<open>PartialNode\<close> and \<^verbatim>\<open>ValueNode\<close> differ in
  their methods only; \<open>kind\<close> is the class. A \<^verbatim>\<open>ValueNode\<close> has no \<^verbatim>\<open>children\<close>
  attribute (reading it raises \<^verbatim>\<open>AttributeError\<close>) and a directory node has no
  \<^verbatim>\<open>value\<close>; the functions below check \<open>kind\<close> before they read either field.
  \<open>parent = None\<close> is Python's \<^verbatim>\<open>None\<close>, which \<^verbatim>\<open>clone\<close> stores for a while.
\<close>

type_synonym ref = nat
type_synonym vref = nat

datatype kind = DictNode | PartialNode | ValueNode

record node =
  kind :: kind
  parent :: "ref option"
  name :: string
  children :: "ref list"
  valref :: vref

text \<open>
  The state of a \<^verbatim>\<open>CheckpointShell\<close>: the two stores, the tree's root
  (\<^verbatim>\<open>self._tree.root\<close>), the working directory \<^verbatim>\<open>self._cwd\<close> and the flag
  \<^verbatim>\<open>self._dirty\<close>.
\<close>

record 'v state =
  nodes :: "ref \<Rightarrow> node"
  next_ref :: ref
  vals :: "vref \<Rightarrow> 'v"
  next_val :: vref
  root :: ref
  cwd :: ref
  dirty :: bool

text \<open>The exceptions the core can raise; none of them is caught by the source.\<close>

datatype exn = AssertionError | AttributeError | ValueError

definition is_directory :: "'v state \<Rightarrow> ref \<Rightarrow> bool" where
  "is_directory st r = (kind (nodes st r) \<noteq> ValueNode)"

definition is_root :: "'v state \<Rightarrow> ref \<Rightarrow> bool" where
  "is_root st r = (parent (nodes st r) = Some r)"

text \<open>
  The constructors. \<^verbatim>\<open>self.parent = parent or self\<close>: a node object is truthy, so only
  \<^verbatim>\<open>None\<close> makes a node its own parent.
\<close>

definition new_node :: "kind \<Rightarrow> ref option \<Rightarrow> string \<Rightarrow> vref \<Rightarrow> 'v state \<Rightarrow> 'v state \<times> ref" where
  "new_node k p nm v st =
     (let r = next_ref st
      in (st\<lparr>nodes := (nodes st)
                (r := \<lparr>kind = k, parent = Some (case p of None \<Rightarrow> r | Some q \<Rightarrow> q),
                       name = nm, children = [], valref = v\<rparr>),
              next_ref := Suc r\<rparr>, r))"

definition new_value :: "'v \<Rightarrow> 'v state \<Rightarrow> 'v state \<times> vref" where
  "new_value x st =
     (let v = next_val st in (st\<lparr>vals := (vals st)(v := x), next_val := Suc v\<rparr>, v))"

text \<open>
  \<^verbatim>\<open>_DirNode.add_child\<close> appends to \<^verbatim>\<open>self.children\<close>; \<^verbatim>\<open>ValueNode\<close> has no such
  method, so the call raises \<^verbatim>\<open>AttributeError\<close> there.
\<close>

definition add_child :: "ref \<Rightarrow> ref \<Rightarrow> 'v state \<Rightarrow> exn + 'v state" where
  "add_child r c st =
     (if kind (nodes st r) = ValueNode then Inl AttributeError
      else Inr (st\<lparr>nodes := (nodes st)(r := (nodes st r)\<lparr>children := children (nodes st r) @ [c]\<rparr>)\<rparr>))"

text \<open>
  \<^verbatim>\<open>child(name)\<close>: the first child of that name; \<^verbatim>\<open>ValueNode.child\<close> returns
  \<^verbatim>\<open>None\<close> always.
\<close>

definition child :: "'v state \<Rightarrow> ref \<Rightarrow> string \<Rightarrow> ref option" where
  "child st r nm =
     (if kind (nodes st r) = ValueNode then None
      else find (\<lambda>c. name (nodes st c) = nm) (children (nodes st r)))"

definition set_parent :: "ref \<Rightarrow> ref option \<Rightarrow> 'v state \<Rightarrow> 'v state" where
  "set_parent r p st = st\<lparr>nodes := (nodes st)(r := (nodes st r)\<lparr>parent := p\<rparr>)\<rparr>"

definition set_name :: "ref \<Rightarrow> string \<Rightarrow> 'v state \<Rightarrow> 'v state" where
  "set_name r nm st = st\<lparr>nodes := (nodes st)(r := (nodes st r)\<lparr>name := nm\<rparr>)\<rparr>"

section \<open>Paths\<close>

text \<open>
  \<^verbatim>\<open>full_name\<close> walks the \<^verbatim>\<open>parent\<close> references up to the node that is its own
  parent. On a cycle of parents the loop does not end, so the model is a partial
  function: \<open>None\<close> is "does not return". A \<^verbatim>\<open>parent\<close> that is \<^verbatim>\<open>None\<close> makes the
  next test read \<^verbatim>\<open>None.parent\<close>, an \<^verbatim>\<open>AttributeError\<close>.
\<close>

partial_function (option) full_name_loop :: "'v state \<Rightarrow> ref \<Rightarrow> string list \<Rightarrow> (exn + string list) option" where
  "full_name_loop st self parts =
     (case parent (nodes st self) of
        None \<Rightarrow> Some (Inl AttributeError)
      | Some p \<Rightarrow>
          if self = p then Some (Inr parts)
          else full_name_loop st p (parts @ [name (nodes st self)]))"

declare full_name_loop.simps [code]

definition full_name :: "'v state \<Rightarrow> ref \<Rightarrow> (exn + string) option" where
  "full_name st r =
     (case full_name_loop st r [] of
        None \<Rightarrow> None
      | Some (Inl x) \<Rightarrow> Some (Inl x)
      | Some (Inr parts) \<Rightarrow> Some (Inr (''/'' @ join ''/'' (rev parts))))"

text \<open>
  \<^verbatim>\<open>Tree.resolve\<close>. The loop variable \<^verbatim>\<open>node\<close> becomes \<^verbatim>\<open>None\<close> only through
  \<^verbatim>\<open>..\<close> on a node whose parent is \<^verbatim>\<open>None\<close>; a later \<^verbatim>\<open>..\<close> or name then raises
  \<^verbatim>\<open>AttributeError\<close>. A failed child lookup returns \<^verbatim>\<open>None\<close> at once.
\<close>

fun resolve_loop :: "'v state \<Rightarrow> ref option \<Rightarrow> string list \<Rightarrow> exn + ref option" where
  "resolve_loop st node [] = Inr node"
| "resolve_loop st node (elem # parts) =
     (if elem = '''' \<or> elem = ''.'' then resolve_loop st node parts
      else if elem = ''..'' then
        (case node of
           None \<Rightarrow> Inl AttributeError
         | Some n \<Rightarrow> resolve_loop st (parent (nodes st n)) parts)
      else
        (case node of
           None \<Rightarrow> Inl AttributeError
         | Some n \<Rightarrow>
             (case child st n elem of
                None \<Rightarrow> Inr None
              | Some c \<Rightarrow> resolve_loop st (Some c) parts)))"

definition resolve :: "'v state \<Rightarrow> string \<Rightarrow> ref option \<Rightarrow> exn + ref option" where
  "resolve st path node =
     (let parts = split_on CHR ''/'' path;
          node1 = (case node of None \<Rightarrow> root st | Some n \<Rightarrow> n);
          node2 = (if path \<noteq> [] \<and> hd path = CHR ''/'' then root st else node1)
      in resolve_loop st (Some node2) parts)"

text \<open>\<^verbatim>\<open>Tree.resolve_path\<close>: the lexical normal form; \<^verbatim>\<open>..\<close> pops if it can.\<close>

fun canonical :: "string list \<Rightarrow> string list \<Rightarrow> string list" where
  "canonical canonical_parts [] = canonical_parts"
| "canonical canonical_parts (elem # parts) =
     (if elem = '''' \<or> elem = ''.'' then canonical canonical_parts parts
      else if elem = ''..'' then
        canonical (if canonical_parts \<noteq> [] then butlast canonical_parts else canonical_parts) parts
      else canonical (canonical_parts @ [elem]) parts)"

definition resolve_path :: "'v state \<Rightarrow> string \<Rightarrow> ref option \<Rightarrow> (exn + string) option" where
  "resolve_path st path node =
     (let parts = split_on CHR ''/'' path
      in case (if path = [] \<or> hd path \<noteq> CHR ''/'' then node else None) of
           None \<Rightarrow> Some (Inr (''/'' @ join ''/'' (canonical [] parts)))
         | Some n \<Rightarrow>
             (case full_name st n of
                None \<Rightarrow> None
              | Some (Inl x) \<Rightarrow> Some (Inl x)
              | Some (Inr fn) \<Rightarrow>
                  Some (Inr (''/'' @ join ''/''
                    (canonical [] (tl (split_on CHR ''/'' fn) @ parts))))))"

section \<open>Insertion and removal\<close>

text \<open>
  \<^verbatim>\<open>Tree.insert\<close>. A missing segment becomes a new \<^verbatim>\<open>PartialNode\<close>. When \<^verbatim>\<open>cur\<close> is
  a \<^verbatim>\<open>ValueNode\<close>, \<^verbatim>\<open>cur.child\<close> returns \<^verbatim>\<open>None\<close>, the \<^verbatim>\<open>PartialNode\<close> is
  constructed, and \<^verbatim>\<open>cur.add_child\<close> raises. The result carries the store as the
  exception leaves it.
\<close>

fun insert_loop :: "ref \<Rightarrow> string list \<Rightarrow> 'v state \<Rightarrow> 'v state \<times> (exn + ref)" where
  "insert_loop cur [] st = (st, Inr cur)"
| "insert_loop cur (elem # parts) st =
     (if elem = '''' then insert_loop cur parts st
      else
        (case child st cur elem of
           Some candidate \<Rightarrow> insert_loop candidate parts st
         | None \<Rightarrow>
             (let (st1, candidate) = new_node PartialNode (Some cur) elem 0 st
              in case add_child cur candidate st1 of
                   Inl x \<Rightarrow> (st1, Inl x)
                 | Inr st2 \<Rightarrow> insert_loop candidate parts st2)))"

definition insert :: "string \<Rightarrow> ref \<Rightarrow> 'v state \<Rightarrow> 'v state \<times> (exn + ref)" where
  "insert path node st =
     (case insert_loop (root st) (split_on CHR ''/'' path) st of
        (st1, Inl x) \<Rightarrow> (st1, Inl x)
      | (st1, Inr cur) \<Rightarrow>
          (case add_child cur node st1 of
             Inl x \<Rightarrow> (st1, Inl x)
           | Inr st2 \<Rightarrow> (st2, Inr cur)))"

text \<open>
  \<^verbatim>\<open>node.parent.children.remove(node); node = node.parent\<close>: the step of
  \<^verbatim>\<open>_rm_node\<close>, returning the parent. \<^verbatim>\<open>list.remove\<close> deletes the first occurrence
  and raises \<^verbatim>\<open>ValueError\<close> when there is none.
\<close>

definition detach :: "ref \<Rightarrow> 'v state \<Rightarrow> exn + ('v state \<times> ref)" where
  "detach node st =
     (case parent (nodes st node) of
        None \<Rightarrow> Inl AttributeError
      | Some p \<Rightarrow>
          if kind (nodes st p) = ValueNode then Inl AttributeError
          else if node \<notin> set (children (nodes st p)) then Inl ValueError
          else Inr (st\<lparr>nodes := (nodes st)
                 (p := (nodes st p)\<lparr>children := remove1 node (children (nodes st p))\<rparr>)\<rparr>, p))"

text \<open>
  The pruning loop of \<^verbatim>\<open>_rm_node\<close>: while the node has no children, is a
  \<^verbatim>\<open>PartialNode\<close> and is not the root, remove it from its parent and go up.
\<close>

partial_function (option) prune_loop :: "ref \<Rightarrow> 'v state \<Rightarrow> ('v state \<times> (exn + unit)) option" where
  "prune_loop node st =
     (if kind (nodes st node) = ValueNode then Some (st, Inl AttributeError)
      else if children (nodes st node) = [] \<and> kind (nodes st node) = PartialNode
              \<and> \<not> is_root st node then
        (case detach node st of
           Inl x \<Rightarrow> Some (st, Inl x)
         | Inr (st1, p) \<Rightarrow> prune_loop p st1)
      else Some (st, Inr ()))"

declare prune_loop.simps [code]

definition rm_node :: "ref \<Rightarrow> 'v state \<Rightarrow> ('v state \<times> (exn + unit)) option" where
  "rm_node node st =
     (case detach node st of
        Inl x \<Rightarrow> Some (st, Inl x)
      | Inr (st1, p) \<Rightarrow> prune_loop p st1)"

section \<open>Cloning\<close>

text \<open>
  \<^verbatim>\<open>copy.deepcopy\<close> on a node: a depth-first copy of every object reachable through the
  attributes, in the order the attributes were set (\<^verbatim>\<open>parent\<close>, \<^verbatim>\<open>name\<close>, then
  \<^verbatim>\<open>children\<close> or \<^verbatim>\<open>value\<close>), with a memo from objects to their copies so that an
  object is copied once. The new object is made without attributes and entered in the
  memo before the attributes are copied; it receives them afterwards
  (\<^verbatim>\<open>y.__dict__.update(state)\<close>). Strings are shared, not copied. A value object is
  copied to a new cell of the value store unless the memo has it.
\<close>

type_synonym copying = "(ref \<rightharpoonup> ref) \<times> (vref \<rightharpoonup> vref)"

definition new_object :: "kind \<Rightarrow> 'v state \<Rightarrow> 'v state \<times> ref" where
  "new_object k st =
     (let y = next_ref st
      in (st\<lparr>nodes := (nodes st)
                (y := \<lparr>kind = k, parent = None, name = [], children = [], valref = 0\<rparr>),
              next_ref := Suc y\<rparr>, y))"

definition set_attrs :: "ref \<Rightarrow> node \<Rightarrow> 'v state \<Rightarrow> 'v state" where
  "set_attrs y attrs st = st\<lparr>nodes := (nodes st)(y := attrs)\<rparr>"

definition copy_value :: "vref \<Rightarrow> 'v state \<times> copying \<Rightarrow> ('v state \<times> copying) \<times> vref" where
  "copy_value v s =
     (case s of (st, memo, vmemo) \<Rightarrow>
        (case vmemo v of
           Some v' \<Rightarrow> (s, v')
         | None \<Rightarrow>
             (let (st1, v') = new_value (vals st v) st
              in ((st1, memo, vmemo(v \<mapsto> v')), v'))))"

text \<open>
  The first argument bounds the depth of the recursion; \<open>None\<close> is "did not return".
\<close>

fun deepcopy :: "nat \<Rightarrow> ref \<Rightarrow> 'v state \<times> copying \<Rightarrow> (('v state \<times> copying) \<times> ref) option"
  and deepcopy_list :: "nat \<Rightarrow> ref list \<Rightarrow> 'v state \<times> copying \<Rightarrow> (('v state \<times> copying) \<times> ref list) option" where
  "deepcopy 0 r s = None"
| "deepcopy (Suc fuel) r (st, memo, vmemo) =
     (case memo r of
        Some y \<Rightarrow> Some ((st, memo, vmemo), y)
      | None \<Rightarrow>
          (let x = nodes st r;
               (st1, y) = new_object (kind x) st
           in case (case parent x of
                      None \<Rightarrow> Some ((st1, memo(r \<mapsto> y), vmemo), None)
                    | Some p \<Rightarrow>
                        (case deepcopy fuel p (st1, memo(r \<mapsto> y), vmemo) of
                           None \<Rightarrow> None
                         | Some (s2, p') \<Rightarrow> Some (s2, Some p'))) of
                None \<Rightarrow> None
              | Some (s2, p') \<Rightarrow>
                  if kind x = ValueNode then
                    (case copy_value (valref x) s2 of
                       ((st3, memos3), v') \<Rightarrow>
                         Some ((set_attrs y \<lparr>kind = kind x, parent = p', name = name x,
                                  children = [], valref = v'\<rparr> st3, memos3), y))
                  else
                    (case deepcopy_list fuel (children x) s2 of
                       None \<Rightarrow> None
                     | Some ((st3, memos3), cs') \<Rightarrow>
                         Some ((set_attrs y \<lparr>kind = kind x, parent = p', name = name x,
                                  children = cs', valref = valref x\<rparr> st3, memos3), y))))"
| "deepcopy_list fuel [] s = Some (s, [])"
| "deepcopy_list fuel (c # cs) s =
     (case deepcopy fuel c s of
        None \<Rightarrow> None
      | Some (s1, c') \<Rightarrow>
          (case deepcopy_list fuel cs s1 of
             None \<Rightarrow> None
           | Some (s2, cs') \<Rightarrow> Some (s2, c' # cs')))"

text \<open>
  \<^verbatim>\<open>_Node.clone\<close>: the parent reference is set to \<^verbatim>\<open>None\<close> so that the copy stops at
  the node, and is put back after the copy. The copy of a store of \<open>next_ref st\<close> nodes
  nests at most that deep.
\<close>

definition clone :: "ref \<Rightarrow> ref option \<Rightarrow> string option \<Rightarrow> 'v state \<Rightarrow> ('v state \<times> ref) option" where
  "clone self clone_parent nm st =
     (let parent0 = parent (nodes st self);
          st1 = set_parent self None st
      in case deepcopy (Suc (next_ref st)) self (st1, Map.empty, Map.empty) of
           None \<Rightarrow> None
         | Some ((st2, _, _), c) \<Rightarrow>
             (let st3 = set_parent c clone_parent st2;
                  st4 = set_parent self parent0 st3;
                  st5 = (case nm of None \<Rightarrow> st4 | Some n \<Rightarrow> set_name c n st4)
              in Some (st5, c)))"

section \<open>The commands\<close>

text \<open>
  A command returns after its work, returns early after printing a message, or is left
  by an exception. The messages are named after the spec's error taxonomy:
  \<^verbatim>\<open>not found\<close> is \<open>NotFound\<close>, \<^verbatim>\<open>cannot move ... to a subdirectory of itself\<close> is
  \<open>SelfSubtreeViolation\<close>, \<^verbatim>\<open>cannot overwrite\<close> is \<open>OverwriteViolation\<close>,
  \<^verbatim>\<open>cannot remove root directory\<close> is \<open>RootViolation\<close>. The arguments are the groups
  of the command line's regular expression; the state returned is the state the command
  leaves, also when it raises.
\<close>

datatype report = NotFound | SelfSubtreeViolation | OverwriteViolation | RootViolation

datatype outcome = Returned | Reported report | Raised exn

definition do_mv :: "string \<Rightarrow> string \<Rightarrow> 'v state \<Rightarrow> ('v state \<times> outcome) option" where
  "do_mv src dst st =
     (case resolve st src (Some (cwd st)) of
        Inl x \<Rightarrow> Some (st, Raised x)
      | Inr src_node \<Rightarrow>
     (case resolve_path st dst (Some (cwd st)) of
        None \<Rightarrow> None
      | Some (Inl x) \<Rightarrow> Some (st, Raised x)
      | Some (Inr dest) \<Rightarrow>
     (case resolve st dest (Some (cwd st)) of
        Inl x \<Rightarrow> Some (st, Raised x)
      | Inr dest_node \<Rightarrow>
     (case src_node of
        None \<Rightarrow> Some (st, Reported NotFound)
      | Some s \<Rightarrow>
     (case full_name st s of
        None \<Rightarrow> None
      | Some (Inl x) \<Rightarrow> Some (st, Raised x)
      | Some (Inr src_full_name) \<Rightarrow>
          if src_full_name = dest then Some (st, Returned)
          else if prefix (src_full_name @ ''/'') (dest @ ''/'') then
            Some (st, Reported SelfSubtreeViolation)
          else
            (case dest_node of
               Some d \<Rightarrow>
                 if \<not> is_directory st d then Some (st, Reported OverwriteViolation)
                 else
                   (case rm_node s st of
                      None \<Rightarrow> None
                    | Some (st1, Inl x) \<Rightarrow> Some (st1, Raised x)
                    | Some (st1, Inr _) \<Rightarrow>
                        (case add_child d s st1 of
                           Inl x \<Rightarrow> Some (st1, Raised x)
                         | Inr st2 \<Rightarrow>
                             Some ((set_parent s (Some d) st2)\<lparr>dirty := True\<rparr>, Returned)))
             | None \<Rightarrow>
                 (let dest_dir = dirname dest; dest_name = basename dest
                  in case rm_node s st of
                       None \<Rightarrow> None
                     | Some (st1, Inl x) \<Rightarrow> Some (st1, Raised x)
                     | Some (st1, Inr _) \<Rightarrow>
                         (case insert dest_dir s st1 of
                            (st2, Inl x) \<Rightarrow> Some (st2, Raised x)
                          | (st2, Inr d) \<Rightarrow>
                              Some ((set_parent s (Some d) (set_name s dest_name st2))
                                      \<lparr>dirty := True\<rparr>, Returned)))))))))"

definition do_cp :: "string \<Rightarrow> string \<Rightarrow> 'v state \<Rightarrow> ('v state \<times> outcome) option" where
  "do_cp src dst st =
     (case resolve st src (Some (cwd st)) of
        Inl x \<Rightarrow> Some (st, Raised x)
      | Inr src_node \<Rightarrow>
     (case resolve_path st dst (Some (cwd st)) of
        None \<Rightarrow> None
      | Some (Inl x) \<Rightarrow> Some (st, Raised x)
      | Some (Inr dest) \<Rightarrow>
     (case resolve st dest (Some (cwd st)) of
        Inl x \<Rightarrow> Some (st, Raised x)
      | Inr dest_node \<Rightarrow>
     (case src_node of
        None \<Rightarrow> Some (st, Reported NotFound)
      | Some s \<Rightarrow>
     (case full_name st s of
        None \<Rightarrow> None
      | Some (Inl x) \<Rightarrow> Some (st, Raised x)
      | Some (Inr src_full_name) \<Rightarrow>
          if src_full_name = dest then Some (st, Returned)
          else if prefix (src_full_name @ ''/'') (dest @ ''/'') then
            Some (st, Reported SelfSubtreeViolation)
          else
            (case dest_node of
               Some d \<Rightarrow>
                 if \<not> is_directory st d then Some (st, Reported OverwriteViolation)
                 else
                   (case clone s (Some d) None st of
                      None \<Rightarrow> None
                    | Some (st1, clone_node) \<Rightarrow>
                        (case add_child d clone_node st1 of
                           Inl x \<Rightarrow> Some (st1, Raised x)
                         | Inr st2 \<Rightarrow> Some (st2\<lparr>dirty := True\<rparr>, Returned)))
             | None \<Rightarrow>
                 (let dest_dir = dirname dest; dest_name = basename dest
                  in case clone s None (Some dest_name) st of
                       None \<Rightarrow> None
                     | Some (st1, clone_node) \<Rightarrow>
                         (case insert dest_dir clone_node st1 of
                            (st2, Inl x) \<Rightarrow> Some (st2, Raised x)
                          | (st2, Inr d) \<Rightarrow>
                              Some ((set_parent clone_node (Some d) st2)\<lparr>dirty := True\<rparr>,
                                    Returned)))))))))"

definition do_rm :: "string \<Rightarrow> 'v state \<Rightarrow> ('v state \<times> outcome) option" where
  "do_rm path st =
     (case resolve st path (Some (cwd st)) of
        Inl x \<Rightarrow> Some (st, Raised x)
      | Inr None \<Rightarrow> Some (st, Reported NotFound)
      | Inr (Some node) \<Rightarrow>
          if is_root st node then Some (st, Reported RootViolation)
          else
            (case rm_node node st of
               None \<Rightarrow> None
             | Some (st1, Inl x) \<Rightarrow> Some (st1, Raised x)
             | Some (st1, Inr _) \<Rightarrow> Some (st1\<lparr>dirty := True\<rparr>, Returned)))"

section \<open>Building the tree and writing it back\<close>

text \<open>
  A checkpoint is a Python \<^verbatim>\<open>dict\<close> from names to values, a value being another
  \<^verbatim>\<open>dict\<close> or anything else. A \<^verbatim>\<open>dict\<close> keeps its keys in insertion order, so it
  is an association list here; a list stands for a \<^verbatim>\<open>dict\<close> when its keys are
  distinct, which \<open>well_formed\<close> asks of every level.
\<close>

datatype 'v val = VLeaf 'v | VDict "(string \<times> 'v val) list"

fun well_formed :: "'v val \<Rightarrow> bool" where
  "well_formed (VLeaf x) = True"
| "well_formed (VDict kvs) =
     (distinct (map fst kvs) \<and> list_all (\<lambda>kv. well_formed (snd kv)) kvs)"

text \<open>
  The inner loop of \<^verbatim>\<open>_from_state_dict\<close> over \<^verbatim>\<open>chunks[:-1]\<close>: find or make the
  \<^verbatim>\<open>PartialNode\<close> of each chunk; a child of that name that is not a \<^verbatim>\<open>PartialNode\<close>
  fails the \<^verbatim>\<open>assert\<close>.
\<close>

fun descend :: "string list \<Rightarrow> ref \<Rightarrow> 'v state \<Rightarrow> 'v state \<times> (exn + ref)" where
  "descend [] par st = (st, Inr par)"
| "descend (chunk # chunks) par st =
     (case child st par chunk of
        None \<Rightarrow>
          (let (st1, nxt) = new_node PartialNode (Some par) chunk 0 st
           in case add_child par nxt st1 of
                Inl x \<Rightarrow> (st1, Inl x)
              | Inr st2 \<Rightarrow> descend chunks nxt st2)
      | Some nxt \<Rightarrow>
          if kind (nodes st nxt) = PartialNode then descend chunks nxt st
          else (st, Inl AssertionError))"

text \<open>
  \<^verbatim>\<open>ValueNode(parent, name, value)\<close> followed by \<^verbatim>\<open>parent.add_child(node)\<close>. The
  value object enters the value store here.
\<close>

definition add_value_node :: "ref \<Rightarrow> string \<Rightarrow> 'v \<Rightarrow> 'v state \<Rightarrow> 'v state \<times> (exn + unit)" where
  "add_value_node par nm x st =
     (let (st1, v) = new_value x st;
          (st2, node) = new_node ValueNode (Some par) nm v st1
      in case add_child par node st2 of
           Inl e \<Rightarrow> (st2, Inl e)
         | Inr st3 \<Rightarrow> (st3, Inr ()))"

text \<open>
  The main loop of \<^verbatim>\<open>_from_state_dict\<close>. Python's \<^verbatim>\<open>stack.pop()\<close> takes the last
  element and \<^verbatim>\<open>stack.append\<close> adds one at the end; here the head of the list is the
  top of the stack, so the items of a \<^verbatim>\<open>dict\<close> are pushed reversed.
\<close>

fun val_size :: "'v val \<Rightarrow> nat" where
  "val_size (VLeaf x) = 1"
| "val_size (VDict kvs) = Suc (sum_list (map (\<lambda>kv. val_size (snd kv)) kvs))"

definition push_items :: "(string \<times> 'v val) list \<Rightarrow> ref \<Rightarrow> ('v val \<times> string \<times> ref) list" where
  "push_items kvs par = rev (map (\<lambda>(k, v). (v, k, par)) kvs)"

function build_loop :: "('v val \<times> string \<times> ref) list \<Rightarrow> 'v state \<Rightarrow> 'v state \<times> (exn + unit)" where
  "build_loop [] st = (st, Inr ())"
| "build_loop ((VDict kvs, nm, par) # stack) st =
     (let (st1, node) = new_node DictNode (Some par) nm 0 st
      in case add_child par node st1 of
           Inl x \<Rightarrow> (st1, Inl x)
         | Inr st2 \<Rightarrow> build_loop (push_items kvs node @ stack) st2)"
| "build_loop ((VLeaf x, nm, par) # stack) st =
     (if CHR ''.'' \<in> set nm then
        (let chunks = split_on CHR ''.'' nm
         in case descend (butlast chunks) par st of
              (st1, Inl e) \<Rightarrow> (st1, Inl e)
            | (st1, Inr p) \<Rightarrow>
                (case add_value_node p (last chunks) x st1 of
                   (st2, Inl e) \<Rightarrow> (st2, Inl e)
                 | (st2, Inr _) \<Rightarrow> build_loop stack st2))
      else
        (case add_value_node par nm x st of
           (st2, Inl e) \<Rightarrow> (st2, Inl e)
         | (st2, Inr _) \<Rightarrow> build_loop stack st2))"
  by pat_completeness auto

lemma sum_list_push_items:
  "sum_list (map (\<lambda>e. val_size (fst e)) (push_items kvs p)) =
   sum_list (map (\<lambda>kv. val_size (snd kv)) kvs)"
  by (induction kvs) (auto simp: push_items_def)

termination build_loop
  by (relation "measure (\<lambda>(stack, st). sum_list (map (\<lambda>e. val_size (fst e)) stack))")
     (auto simp: sum_list_push_items)

text \<open>
  \<^verbatim>\<open>Tree._from_state_dict\<close>, and the constructor of the shell around it: the root is a
  new \<^verbatim>\<open>DictNode(None, '')\<close>, the working directory is the root, nothing is dirty.
\<close>

definition from_state_dict :: "(string \<times> 'v val) list \<Rightarrow> 'v state \<Rightarrow> 'v state \<times> (exn + ref)" where
  "from_state_dict sd st =
     (let (st1, rt) = new_node DictNode None [] 0 st
      in case build_loop (push_items sd rt) st1 of
           (st2, Inl e) \<Rightarrow> (st2, Inl e)
         | (st2, Inr _) \<Rightarrow> (st2, Inr rt))"

definition init :: "(string \<times> 'v val) list \<Rightarrow> 'v state \<Rightarrow> exn + 'v state" where
  "init sd st =
     (case from_state_dict sd st of
        (st1, Inl e) \<Rightarrow> Inl e
      | (st1, Inr rt) \<Rightarrow> Inr (st1\<lparr>root := rt, cwd := rt, dirty := False\<rparr>))"

text \<open>
  \<^verbatim>\<open>state_dict\<close> of the three classes. \<^verbatim>\<open>ret.update(d)\<close> overwrites the value of a key
  that is present and appends a key that is not, which is \<open>AList.update\<close> for each
  item of \<open>d\<close> in turn. The recursion follows \<^verbatim>\<open>children\<close>; its depth is bounded by
  the first argument, and \<open>None\<close> is "did not return".
\<close>

definition dict_update :: "(string \<times> 'v val) list \<Rightarrow> (string \<times> 'v val) list \<Rightarrow> (string \<times> 'v val) list" where
  "dict_update ret d = fold (\<lambda>(k, v). AList.update k v) d ret"

fun state_dict :: "nat \<Rightarrow> 'v state \<Rightarrow> ref \<Rightarrow> (string \<times> 'v val) list option"
  and merge_children :: "nat \<Rightarrow> 'v state \<Rightarrow> ref list \<Rightarrow> (string \<times> 'v val) list \<Rightarrow> (string \<times> 'v val) list option" where
  "state_dict 0 st r = None"
| "state_dict (Suc fuel) st r =
     (case kind (nodes st r) of
        ValueNode \<Rightarrow> Some [(name (nodes st r), VLeaf (vals st (valref (nodes st r))))]
      | DictNode \<Rightarrow>
          (case merge_children fuel st (children (nodes st r)) [] of
             None \<Rightarrow> None
           | Some ret \<Rightarrow>
               Some (if is_root st r then ret else [(name (nodes st r), VDict ret)]))
      | PartialNode \<Rightarrow>
          (case merge_children fuel st (children (nodes st r)) [] of
             None \<Rightarrow> None
           | Some ret \<Rightarrow>
               Some (map (\<lambda>(k, v). (name (nodes st r) @ ''.'' @ k, v)) ret)))"
| "merge_children fuel st [] ret = Some ret"
| "merge_children fuel st (c # cs) ret =
     (case state_dict fuel st c of
        None \<Rightarrow> None
      | Some d \<Rightarrow> merge_children fuel st cs (dict_update ret d))"

text \<open>
  What \<^verbatim>\<open>do_save\<close> writes: \<^verbatim>\<open>self._tree.root.state_dict()\<close>. A tree of
  \<open>next_ref st\<close> nodes nests at most that deep.
\<close>

definition serialize :: "'v state \<Rightarrow> (string \<times> 'v val) list option" where
  "serialize st = state_dict (Suc (next_ref st)) st (root st)"

text \<open>
  Python's \<^verbatim>\<open>==\<close> on \<^verbatim>\<open>dict\<close>s: the same keys, and equal values at each key,
  whatever the order.
\<close>

fun dict_eq :: "'v val \<Rightarrow> 'v val \<Rightarrow> bool" where
  "dict_eq (VLeaf x) w = (w = VLeaf x)"
| "dict_eq (VDict kvs) w =
     (case w of
        VLeaf y \<Rightarrow> False
      | VDict kvs' \<Rightarrow>
          set (map fst kvs) = set (map fst kvs') \<and>
          list_all (\<lambda>kv. case map_of kvs' (fst kv) of
                            None \<Rightarrow> False
                          | Some w' \<Rightarrow> dict_eq (snd kv) w') kvs)"

text \<open>A store to start from, for the evaluations below.\<close>

definition store0 :: "int state" where
  "store0 = \<lparr>nodes = (\<lambda>r. \<lparr>kind = DictNode, parent = None, name = [], children = [], valref = 0\<rparr>),
             next_ref = 0, vals = (\<lambda>v. 0), next_val = 0, root = 0, cwd = 0, dirty = False\<rparr>"

section \<open>Example trees\<close>

text \<open>
  The trees of the spec's examples, built by the constructor in the empty store:
  from \<^verbatim>\<open>{"a.b.c": 1, "a.b.d": 2}\<close>, from \<^verbatim>\<open>{"x": 1, "y": 2}\<close>, from
  \<^verbatim>\<open>{"a.b": 1}\<close> and from \<^verbatim>\<open>{"x": 1, "d.x": 2}\<close>.
\<close>

definition tree_of :: "(string \<times> int val) list \<Rightarrow> int state" where
  "tree_of sd = (case init sd store0 of Inr st \<Rightarrow> st | Inl e \<Rightarrow> store0)"

definition tree_abcd :: "int state" where
  "tree_abcd = tree_of [(''a.b.c'', VLeaf 1), (''a.b.d'', VLeaf 2)]"

definition tree_xy :: "int state" where
  "tree_xy = tree_of [(''x'', VLeaf 1), (''y'', VLeaf 2)]"

definition tree_ab :: "int state" where
  "tree_ab = tree_of [(''a.b'', VLeaf 1)]"

definition tree_xdx :: "int state" where
  "tree_xdx = tree_of [(''x'', VLeaf 1), (''d.x'', VLeaf 2)]"

definition tree_a :: "int state" where
  "tree_a = tree_of [(''a'', VLeaf 1)]"

section \<open>Predicates on stores\<close>

text \<open>
  Sibling names are unique when the children of every allocated node have pairwise
  distinct names.
\<close>

definition sibling_names_unique :: "'v state \<Rightarrow> bool" where
  "sibling_names_unique st =
     list_all (\<lambda>r. distinct (map (\<lambda>c. name (nodes st c)) (children (nodes st r))))
       [0..<next_ref st]"

text \<open>
  \<open>extends st st'\<close>: the store \<open>st'\<close> has every object of \<open>st\<close> unchanged and
  possibly more objects. The other three predicates follow a \<^verbatim>\<open>deepcopy\<close>: the value
  cells in the memo, and those of the \<^verbatim>\<open>ValueNode\<close>s allocated from \<open>lo\<close> on, are
  at or above \<open>bv\<close>.
\<close>

definition extends :: "'v state \<Rightarrow> 'v state \<Rightarrow> bool" where
  "extends st st' =
     (next_ref st \<le> next_ref st' \<and> next_val st \<le> next_val st' \<and>
      (\<forall>r. r < next_ref st \<longrightarrow> nodes st' r = nodes st r) \<and>
      (\<forall>v. v < next_val st \<longrightarrow> vals st' v = vals st v) \<and>
      root st' = root st \<and> cwd st' = cwd st \<and> dirty st' = dirty st)"

definition fresh_vmemo :: "vref \<Rightarrow> (vref \<rightharpoonup> vref) \<Rightarrow> bool" where
  "fresh_vmemo bv vm = (\<forall>v v'. vm v = Some v' \<longrightarrow> bv \<le> v')"

definition fresh_leaves :: "vref \<Rightarrow> ref \<Rightarrow> 'v state \<Rightarrow> bool" where
  "fresh_leaves bv lo st =
     (\<forall>q. lo \<le> q \<and> q < next_ref st \<and> kind (nodes st q) = ValueNode \<longrightarrow> bv \<le> valref (nodes st q))"

definition copy_inv :: "vref \<Rightarrow> 'v state \<times> copying \<Rightarrow> 'v state \<times> copying \<Rightarrow> bool" where
  "copy_inv bv s s' =
     (extends (fst s) (fst s') \<and>
      (fresh_vmemo bv (snd (snd s)) \<longrightarrow> bv \<le> next_val (fst s) \<longrightarrow>
         fresh_vmemo bv (snd (snd s')) \<and> fresh_leaves bv (next_ref (fst s)) (fst s')))"

text \<open>
  A store is closed when the root, the working directory and every reference held by an
  allocated node are allocated. The remaining predicates compare a store with a later
  one: \<open>attaches\<close> (allocated nodes keep everything but may gain children at or above
  \<open>lo\<close>, and every node allocated in between is a \<^verbatim>\<open>PartialNode\<close>), \<open>old_same\<close>
  (the nodes below \<open>lo\<close> are the same), \<open>one_gained\<close> (the nodes below \<open>lo\<close> are
  the same but for one, which has one more child, at or above \<open>lo\<close>, at the end of its
  list).
\<close>

definition closed :: "'v state \<Rightarrow> bool" where
  "closed st =
     (root st < next_ref st \<and> cwd st < next_ref st \<and>
      list_all (\<lambda>r.
          (case parent (nodes st r) of None \<Rightarrow> True | Some p \<Rightarrow> p < next_ref st) \<and>
          list_all (\<lambda>c. c < next_ref st) (children (nodes st r)) \<and>
          (if kind (nodes st r) = ValueNode then valref (nodes st r) < next_val st else True))
        [0..<next_ref st])"

definition attaches :: "ref \<Rightarrow> 'v state \<Rightarrow> 'v state \<Rightarrow> bool" where
  "attaches lo st st' =
     (next_ref st \<le> next_ref st' \<and> next_val st' = next_val st \<and> vals st' = vals st \<and>
      root st' = root st \<and> cwd st' = cwd st \<and> dirty st' = dirty st \<and>
      (\<forall>r. r < next_ref st \<longrightarrow>
         kind (nodes st' r) = kind (nodes st r) \<and> parent (nodes st' r) = parent (nodes st r) \<and>
         name (nodes st' r) = name (nodes st r) \<and> valref (nodes st' r) = valref (nodes st r) \<and>
         (\<exists>cs. children (nodes st' r) = children (nodes st r) @ cs \<and> (\<forall>c \<in> set cs. lo \<le> c))) \<and>
      (\<forall>r. next_ref st \<le> r \<and> r < next_ref st' \<longrightarrow> kind (nodes st' r) = PartialNode))"

definition old_same :: "ref \<Rightarrow> 'v state \<Rightarrow> 'v state \<Rightarrow> bool" where
  "old_same lo st st' = (\<forall>r. r < lo \<longrightarrow> nodes st' r = nodes st r)"

definition one_gained :: "ref \<Rightarrow> 'v state \<Rightarrow> 'v state \<Rightarrow> bool" where
  "one_gained lo st st' =
     (\<exists>a n. a < lo \<and> lo \<le> n \<and>
        nodes st' a = (nodes st a)\<lparr>children := children (nodes st a) @ [n]\<rparr> \<and>
        (\<forall>r. r < lo \<and> r \<noteq> a \<longrightarrow> nodes st' r = nodes st r))"

definition old_closed :: "ref \<Rightarrow> 'v state \<Rightarrow> bool" where
  "old_closed lo st = (\<forall>r. r < lo \<longrightarrow> (\<forall>c \<in> set (children (nodes st r)). c < lo))"

text \<open>
  For the pruning of \<^verbatim>\<open>rm\<close>. \<open>attached_via st c ps\<close>: the nodes \<open>ps\<close> are the
  ancestors of \<open>c\<close> in order, the last one the root; each is a directory and lists the
  one below among its children.
\<close>

fun attached_via :: "'v state \<Rightarrow> ref \<Rightarrow> ref list \<Rightarrow> bool" where
  "attached_via st c [] = is_root st c"
| "attached_via st c (p # ps) =
     (parent (nodes st c) = Some p \<and> p \<noteq> c \<and> c \<in> set (children (nodes st p)) \<and>
      kind (nodes st p) \<noteq> ValueNode \<and> attached_via st p ps)"

text \<open>
  What the spec says \<^verbatim>\<open>rm\<close> does, read off the store before the call.
  \<open>remove_from_parent\<close> takes a node out of its parent's list of children.
  \<open>pruned st c ps\<close> are the ancestors that are pruned when \<open>c\<close> is detached and \<open>ps\<close>
  are its ancestors: going up, each ancestor that is a \<^verbatim>\<open>PartialNode\<close> (a JoinedGroup),
  is not the root and has the node below as its only child (so that it is childless once
  that node is gone); the walk stops at the first ancestor that is not such.
\<close>

definition remove_from_parent :: "ref \<Rightarrow> 'v state \<Rightarrow> 'v state" where
  "remove_from_parent c st =
     (case parent (nodes st c) of
        None \<Rightarrow> st
      | Some p \<Rightarrow>
          st\<lparr>nodes := (nodes st)
               (p := (nodes st p)\<lparr>children := remove1 c (children (nodes st p))\<rparr>)\<rparr>)"

fun pruned :: "'v state \<Rightarrow> ref \<Rightarrow> ref list \<Rightarrow> ref list" where
  "pruned st c [] = []"
| "pruned st c (p # ps) =
     (if kind (nodes st p) = PartialNode \<and> \<not> is_root st p \<and> children (nodes st p) = [c]
      then p # pruned st p ps else [])"

text \<open>
  Two more trees: the tree built from \<^verbatim>\<open>{"a.b.c": 1, "a.b.d": 2}\<close> after
  \<^verbatim>\<open>rm /a/b/c\<close>, and the tree built from \<^verbatim>\<open>{"g": {"x": 1}}\<close>.
\<close>

definition tree_abd :: "int state" where
  "tree_abd = (case do_rm ''/a/b/c'' tree_abcd of Some (st, out) \<Rightarrow> st | None \<Rightarrow> tree_abcd)"

definition tree_gx :: "int state" where
  "tree_gx = tree_of [(''g'', VDict [(''x'', VLeaf 1)])]"

text \<open>
  For the copy made by \<^verbatim>\<open>cp\<close>. While \<^verbatim>\<open>deepcopy\<close> runs, the memo relates the
  objects met so far to their copies. \<open>mirrors st0 st ms r y\<close>: in the store \<open>st\<close> the
  object \<open>y\<close> has the kind and the name that \<open>r\<close> has in the store \<open>st0\<close> the copy
  started from; its value object is the memo's copy of the value object of \<open>r\<close>, or its
  children are, one by one, the memo's copies of the children of \<open>r\<close>.
  \<open>copying_inv st0 P s\<close> is what holds between two steps of the copy: nothing that
  existed in \<open>st0\<close> has changed, the memo maps objects of \<open>st0\<close> to objects made since,
  no two to the same one, every entry outside the set \<open>P\<close> of objects whose copy is
  still under way mirrors its original, and the memo of value objects maps to value
  objects made since that hold what the original holds. \<open>copy_post\<close> adds that the memos
  only grow.
\<close>

definition mirrors :: "'v state \<Rightarrow> 'v state \<Rightarrow> copying \<Rightarrow> ref \<Rightarrow> ref \<Rightarrow> bool" where
  "mirrors st0 st ms r y =
     (kind (nodes st y) = kind (nodes st0 r) \<and> name (nodes st y) = name (nodes st0 r) \<and>
      (if kind (nodes st0 r) = ValueNode
       then snd ms (valref (nodes st0 r)) = Some (valref (nodes st y))
       else list_all2 (\<lambda>c c'. fst ms c = Some c') (children (nodes st0 r)) (children (nodes st y))))"

definition copying_inv :: "'v state \<Rightarrow> ref set \<Rightarrow> 'v state \<times> copying \<Rightarrow> bool" where
  "copying_inv st0 P s =
     (extends st0 (fst s) \<and>
      (\<forall>r y. fst (snd s) r = Some y \<longrightarrow>
         r < next_ref st0 \<and> next_ref st0 \<le> y \<and> y < next_ref (fst s)) \<and>
      (\<forall>r r' y. fst (snd s) r = Some y \<and> fst (snd s) r' = Some y \<longrightarrow> r = r') \<and>
      (\<forall>r y. fst (snd s) r = Some y \<and> r \<notin> P \<longrightarrow> mirrors st0 (fst s) (snd s) r y) \<and>
      (\<forall>v v'. snd (snd s) v = Some v' \<longrightarrow>
         next_val st0 \<le> v' \<and> v' < next_val (fst s) \<and> vals (fst s) v' = vals st0 v))"

definition copy_post :: "'v state \<Rightarrow> ref set \<Rightarrow> 'v state \<times> copying \<Rightarrow> 'v state \<times> copying \<Rightarrow> bool" where
  "copy_post st0 P s s' =
     (copying_inv st0 P s' \<and> fst (snd s) \<subseteq>\<^sub>m fst (snd s') \<and> snd (snd s) \<subseteq>\<^sub>m snd (snd s'))"

text \<open>
  What a finished copy is. \<open>copy_map st st' s c m\<close>: \<open>m\<close> maps objects of the store
  \<open>st\<close> to objects that \<open>st'\<close> has and \<open>st\<close> did not have, \<open>s\<close> to \<open>c\<close>; the copy of
  an object has its kind and, but for the copy of \<open>s\<close> (which \<^verbatim>\<open>cp\<close> may rename), its
  name; the copy of a \<^verbatim>\<open>ValueNode\<close> refers to a value object that \<open>st\<close> did not have
  and that holds in \<open>st'\<close> what the original's value object holds in \<open>st\<close>; the
  children of the copy of a directory are, in order, the copies of the directory's
  children. \<open>reaches st a b\<close>: \<open>b\<close> is \<open>a\<close> or is found from \<open>a\<close> by going down through
  \<^verbatim>\<open>children\<close> of directories. \<open>independent_of_old st st' q\<close>: the value object of the
  node \<open>q\<close> of \<open>st'\<close> is not one of \<open>st\<close>, and after writing any \<open>x\<close> into it every
  \<^verbatim>\<open>ValueNode\<close> that \<open>st\<close> had reads what it read in \<open>st\<close>.
\<close>

definition copy_map :: "'v state \<Rightarrow> 'v state \<Rightarrow> ref \<Rightarrow> ref \<Rightarrow> (ref \<rightharpoonup> ref) \<Rightarrow> bool" where
  "copy_map st st' s c m =
     (m s = Some c \<and>
      (\<forall>r y. m r = Some y \<longrightarrow>
         r < next_ref st \<and> next_ref st \<le> y \<and> y < next_ref st' \<and>
         kind (nodes st' y) = kind (nodes st r) \<and>
         (r \<noteq> s \<longrightarrow> name (nodes st' y) = name (nodes st r)) \<and>
         (if kind (nodes st r) = ValueNode
          then next_val st \<le> valref (nodes st' y) \<and>
               vals st' (valref (nodes st' y)) = vals st (valref (nodes st r))
          else list_all2 (\<lambda>ch ch'. m ch = Some ch')
                 (children (nodes st r)) (children (nodes st' y)))))"

inductive reaches :: "'v state \<Rightarrow> ref \<Rightarrow> ref \<Rightarrow> bool" for st :: "'v state" and a :: ref where
  here: "reaches st a a"
| below: "reaches st a b \<Longrightarrow> kind (nodes st b) \<noteq> ValueNode \<Longrightarrow>
          c \<in> set (children (nodes st b)) \<Longrightarrow> reaches st a c"

definition independent_of_old :: "'v state \<Rightarrow> 'v state \<Rightarrow> ref \<Rightarrow> bool" where
  "independent_of_old st st' q =
     (next_val st \<le> valref (nodes st' q) \<and>
      (\<forall>r x. r < next_ref st \<and> kind (nodes st r) = ValueNode \<longrightarrow>
         ((vals st')(valref (nodes st' q) := x)) (valref (nodes st' r)) =
           vals st (valref (nodes st r))))"

section \<open>Canonical paths resolve without an exception\<close>

lemma split_on_nonempty: "split_on c s \<noteq> []"
  by (induction s) (auto split: list.splits)

lemma split_on_no_sep: "p \<in> set (split_on c s) \<Longrightarrow> c \<notin> set p"
proof (induction s arbitrary: p)
  case Nil
  then show ?case by simp
next
  case (Cons x xs)
  show ?case
  proof (cases "x = c")
    case True
    with Cons show ?thesis by auto
  next
    case False
    obtain q qs where q: "split_on c xs = q # qs"
      using split_on_nonempty [of c xs] by (cases "split_on c xs") auto
    with False Cons.prems have "p = x # q \<or> p \<in> set qs" by auto
    then show ?thesis
      using Cons.IH [of q] Cons.IH [of p] q False by auto
  qed
qed

lemma split_on_join:
  "parts \<noteq> [] \<Longrightarrow> \<forall>p \<in> set parts. c \<notin> set p \<Longrightarrow> split_on c (join [c] parts) = parts"
proof (induction "[c]" parts rule: join.induct)
  case 1
  then show ?case by simp
next
  case (2 p)
  then have "c \<notin> set p" by simp
  then have "split_on c p = [p]" by (induction p) auto
  then show ?case by simp
next
  case (3 p q ps)
  from "3.prems" have cp: "c \<notin> set p" by simp
  have rest: "split_on c (join [c] (q # ps)) = q # ps"
    using 3 by simp
  have "split_on c (p @ c # s) = p # split_on c s" if "c \<notin> set p" for p s
    using that by (induction p) auto
  with cp rest show ?case by simp
qed

lemma canonical_elems:
  "e \<in> set (canonical acc parts) \<Longrightarrow>
   e \<in> set acc \<or> (e \<in> set parts \<and> e \<noteq> [] \<and> e \<noteq> ''.'' \<and> e \<noteq> ''..'')"
proof (induction parts arbitrary: acc)
  case Nil
  then show ?case by simp
next
  case (Cons a parts)
  consider (skip) "a = [] \<or> a = ''.''" | (up) "a = ''..''" | (down) "a \<noteq> []" "a \<noteq> ''.''" "a \<noteq> ''..''"
    by blast
  then show ?case
  proof cases
    case skip
    with Cons.prems have "e \<in> set (canonical acc parts)" by auto
    from Cons.IH [OF this] show ?thesis by auto
  next
    case up
    with Cons.prems have "e \<in> set (canonical (if acc \<noteq> [] then butlast acc else acc) parts)"
      by simp
    from Cons.IH [OF this] show ?thesis
      by (auto split: if_splits dest: in_set_butlastD)
  next
    case down
    with Cons.prems have "e \<in> set (canonical (acc @ [a]) parts)" by simp
    from Cons.IH [OF this] down show ?thesis by auto
  qed
qed

lemma resolve_loop_no_dotdot:
  "''..'' \<notin> set parts \<Longrightarrow> \<exists>r. resolve_loop st (Some n) parts = Inr r"
  by (induction parts arbitrary: n) (auto split: option.splits)

lemma resolve_path_shape:
  assumes "resolve_path st path node = Some (Inr dest)"
  shows "\<exists>cps. dest = ''/'' @ join ''/'' cps \<and> (\<forall>p \<in> set cps. CHR ''/'' \<notin> set p \<and> p \<noteq> ''..'')"
proof -
  have *: "\<forall>p \<in> set (canonical [] (pre @ split_on CHR ''/'' path)). CHR ''/'' \<notin> set p \<and> p \<noteq> ''..''"
    if "\<forall>p \<in> set pre. CHR ''/'' \<notin> set p" for pre
    using that by (auto dest!: canonical_elems dest: split_on_no_sep)
  have tl: "\<forall>p \<in> set (tl (split_on CHR ''/'' fn)). CHR ''/'' \<notin> set p" for fn
    by (meson list.set_sel(2) split_on_no_sep split_on_nonempty)
  from assms show ?thesis
    unfolding resolve_path_def Let_def
    using * [of "[]"] * [OF tl]
    by (auto split: option.splits sum.splits if_splits)
qed

lemma resolve_canonical:
  assumes "\<forall>p \<in> set cps. CHR ''/'' \<notin> set p \<and> p \<noteq> ''..''"
  shows "\<exists>r. resolve st (''/'' @ join ''/'' cps) node = Inr r"
proof (cases "cps = []")
  case True
  then show ?thesis by (simp add: resolve_def)
next
  case False
  with assms have "split_on CHR ''/'' (join ''/'' cps) = cps"
    using split_on_join [of cps "CHR ''/''"] by simp
  with assms show ?thesis
    using resolve_loop_no_dotdot [of cps st "root st"]
    by (auto simp: resolve_def)
qed

lemma resolve_dest_returns:
  assumes "resolve_path st path node = Some (Inr dest)"
  shows "\<exists>r. resolve st dest node' = Inr r"
  using resolve_path_shape [OF assms] resolve_canonical by blast

section \<open>The guards of mv and cp\<close>

text \<open>
  Claim C2. Whenever the source path resolves to a node, that node has a full name, and
  the canonical form of the destination starts with the source's full name followed by
  a slash, both \<^verbatim>\<open>mv\<close> and \<^verbatim>\<open>cp\<close> return after the message
  "cannot move/copy ... to a subdirectory of itself" (\<open>SelfSubtreeViolation\<close>), and the
  state they leave is the state they were given: stores, root, working directory and
  dirty flag.
\<close>

theorem mv_cp_self_subtree_guard:
  assumes "resolve st src (Some (cwd st)) = Inr (Some s)"
    and "full_name st s = Some (Inr src_full_name)"
    and "resolve_path st dst (Some (cwd st)) = Some (Inr dest)"
    and "prefix (src_full_name @ ''/'') dest"
  shows "do_mv src dst st = Some (st, Reported SelfSubtreeViolation) \<and>
         do_cp src dst st = Some (st, Reported SelfSubtreeViolation)"
proof -
  obtain dn where dn: "resolve st dest (Some (cwd st)) = Inr dn"
    using resolve_dest_returns [OF assms(3)] by blast
  from assms(4) have ne: "src_full_name \<noteq> dest"
    by (auto simp: prefix_def)
  from assms(4) have pre: "prefix (src_full_name @ ''/'') (dest @ ''/'')"
    by (auto simp: prefix_def)
  show ?thesis
    using assms(1-3) dn ne pre by (simp add: do_mv_def do_cp_def)
qed

text \<open>The spec's example: in the tree with \<^verbatim>\<open>/a/b\<close>, \<^verbatim>\<open>mv /a /a/b/c\<close>.\<close>

theorem mv_cp_self_subtree_guard_witness:
  "resolve tree_abcd ''/a'' (Some (cwd tree_abcd)) = Inr (Some 1) \<and>
   full_name tree_abcd 1 = Some (Inr ''/a'') \<and>
   resolve_path tree_abcd ''/a/b/c'' (Some (cwd tree_abcd)) = Some (Inr ''/a/b/c'') \<and>
   prefix (''/a'' @ ''/'') ''/a/b/c'' \<and>
   do_mv ''/a'' ''/a/b/c'' tree_abcd = Some (tree_abcd, Reported SelfSubtreeViolation) \<and>
   do_cp ''/a'' ''/a/b/c'' tree_abcd = Some (tree_abcd, Reported SelfSubtreeViolation)"
proof -
  have h1: "resolve tree_abcd ''/a'' (Some (cwd tree_abcd)) = Inr (Some 1)"
    by code_simp
  have h2: "full_name tree_abcd 1 = Some (Inr ''/a'')"
    by code_simp
  have h3: "resolve_path tree_abcd ''/a/b/c'' (Some (cwd tree_abcd)) = Some (Inr ''/a/b/c'')"
    by code_simp
  have h4: "prefix (''/a'' @ ''/'') ''/a/b/c''"
    by simp
  from mv_cp_self_subtree_guard [OF h1 h2 h3 h4] h1 h2 h3 h4 show ?thesis
    by blast
qed

text \<open>
  Claim C5, as the code has it. The guards are tested in the order: same path, self
  subtree, overwrite. A destination that is a Leaf below the source is therefore refused
  as \<open>SelfSubtreeViolation\<close>, not as \<open>OverwriteViolation\<close>: in the tree built from
  \<^verbatim>\<open>{"a.b": 1}\<close>, \<^verbatim>\<open>mv /a /a/b\<close> and \<^verbatim>\<open>cp /a /a/b\<close> have a source that
  resolves, a destination that differs from the source's full name and resolves to a
  Leaf, and report \<open>SelfSubtreeViolation\<close>.
\<close>

theorem overwrite_guard_counterexample:
  "resolve tree_ab ''/a'' (Some (cwd tree_ab)) = Inr (Some 1) \<and>
   full_name tree_ab 1 = Some (Inr ''/a'') \<and>
   resolve_path tree_ab ''/a/b'' (Some (cwd tree_ab)) = Some (Inr ''/a/b'') \<and>
   resolve tree_ab ''/a/b'' (Some (cwd tree_ab)) = Inr (Some 2) \<and>
   kind (nodes tree_ab 2) = ValueNode \<and>
   map_option snd (do_mv ''/a'' ''/a/b'' tree_ab) = Some (Reported SelfSubtreeViolation) \<and>
   map_option snd (do_cp ''/a'' ''/a/b'' tree_ab) = Some (Reported SelfSubtreeViolation)"
  by code_simp

text \<open>
  Claim C5, amended: whenever the source path resolves to a node with a full name, the
  canonical destination is neither that full name nor below it, and the destination
  resolves to a \<^verbatim>\<open>ValueNode\<close>, both \<^verbatim>\<open>mv\<close> and \<^verbatim>\<open>cp\<close> return after the message
  "cannot overwrite" (\<open>OverwriteViolation\<close>) and leave the state as it was.
\<close>

theorem mv_cp_overwrite_guard:
  assumes "resolve st src (Some (cwd st)) = Inr (Some s)"
    and "full_name st s = Some (Inr src_full_name)"
    and "resolve_path st dst (Some (cwd st)) = Some (Inr dest)"
    and "src_full_name \<noteq> dest"
    and "\<not> prefix (src_full_name @ ''/'') (dest @ ''/'')"
    and "resolve st dest (Some (cwd st)) = Inr (Some d)"
    and "kind (nodes st d) = ValueNode"
  shows "do_mv src dst st = Some (st, Reported OverwriteViolation) \<and>
         do_cp src dst st = Some (st, Reported OverwriteViolation)"
  using assms by (simp add: do_mv_def do_cp_def is_directory_def)

theorem mv_cp_overwrite_guard_witness:
  "resolve tree_xy ''/y'' (Some (cwd tree_xy)) = Inr (Some 1) \<and>
   full_name tree_xy 1 = Some (Inr ''/y'') \<and>
   resolve_path tree_xy ''/x'' (Some (cwd tree_xy)) = Some (Inr ''/x'') \<and>
   ''/y'' \<noteq> ''/x'' \<and>
   resolve tree_xy ''/x'' (Some (cwd tree_xy)) = Inr (Some 2) \<and>
   kind (nodes tree_xy 2) = ValueNode \<and>
   do_mv ''/y'' ''/x'' tree_xy = Some (tree_xy, Reported OverwriteViolation) \<and>
   do_cp ''/y'' ''/x'' tree_xy = Some (tree_xy, Reported OverwriteViolation)"
proof -
  have h1: "resolve tree_xy ''/y'' (Some (cwd tree_xy)) = Inr (Some 1)"
    by code_simp
  have h2: "full_name tree_xy 1 = Some (Inr ''/y'')"
    by code_simp
  have h3: "resolve_path tree_xy ''/x'' (Some (cwd tree_xy)) = Some (Inr ''/x'')"
    by code_simp
  have h4: "''/y'' \<noteq> ''/x''"
    by simp
  have h5: "\<not> prefix (''/y'' @ ''/'') (''/x'' @ ''/'')"
    by simp
  have h6: "resolve tree_xy ''/x'' (Some (cwd tree_xy)) = Inr (Some 2)"
    by code_simp
  have h7: "kind (nodes tree_xy 2) = ValueNode"
    by code_simp
  from mv_cp_overwrite_guard [OF h1 h2 h3 h4 h5 h6 h7] h1 h2 h3 h4 h6 h7 show ?thesis
    by blast
qed

section \<open>Failures that are exceptions\<close>

lemma insert_loop_append:
  "insert_loop cur (pre @ post) st =
     (case insert_loop cur pre st of
        (st1, Inl e) \<Rightarrow> (st1, Inl e)
      | (st1, Inr c) \<Rightarrow> insert_loop c post st1)"
  by (induction pre arbitrary: cur st)
     (auto split: option.splits sum.splits prod.splits)

lemma insert_loop_at_leaf:
  assumes "kind (nodes st cur) = ValueNode" and "cur < next_ref st"
  shows "(\<exists>st'. insert_loop cur parts st = (st', Inl AttributeError)) \<or>
         insert_loop cur parts st = (st, Inr cur)"
  using assms
proof (induction parts)
  case Nil
  then show ?case by simp
next
  case (Cons elem parts)
  show ?case
  proof (cases "elem = []")
    case True
    with Cons show ?thesis by simp
  next
    case False
    with Cons.prems show ?thesis
      by (simp add: child_def new_node_def add_child_def Let_def)
  qed
qed

text \<open>
  Once the walk of \<^verbatim>\<open>insert\<close> stands on a \<^verbatim>\<open>ValueNode\<close>, whatever is left of the
  path, the call ends in \<^verbatim>\<open>AttributeError\<close>: either \<^verbatim>\<open>add_child\<close> of a new
  \<^verbatim>\<open>PartialNode\<close> or the final \<^verbatim>\<open>add_child\<close> is called on the \<^verbatim>\<open>ValueNode\<close>.
\<close>

lemma insert_through_leaf_raises:
  assumes "split_on CHR ''/'' path = pre @ post"
    and "insert_loop (root st) pre st = (st, Inr l)"
    and "kind (nodes st l) = ValueNode"
    and "l < next_ref st"
  shows "\<exists>st'. insert path node st = (st', Inl AttributeError)"
proof -
  have loop: "insert_loop (root st) (pre @ post) st = insert_loop l post st"
    using assms(2) by (simp add: insert_loop_append)
  from insert_loop_at_leaf [OF assms(3,4), of post]
  show ?thesis
  proof
    assume "\<exists>st'. insert_loop l post st = (st', Inl AttributeError)"
    with loop assms(1) show ?thesis by (auto simp: insert_def)
  next
    assume "insert_loop l post st = (st, Inr l)"
    with loop assms(1,3) show ?thesis by (simp add: insert_def add_child_def)
  qed
qed

text \<open>
  Claim C7 (the code differs). In the tree built from \<^verbatim>\<open>{"x": 1, "y": 2}\<close> the path
  \<^verbatim>\<open>/x\<close> resolves to a \<^verbatim>\<open>ValueNode\<close>. \<^verbatim>\<open>insert\<close> with the group path \<^verbatim>\<open>/x\<close>, and
  with \<^verbatim>\<open>/x/z\<close>, does fail, but by raising \<^verbatim>\<open>AttributeError\<close>, which nothing
  catches: the failure is an exception, not a value the caller is handed.
\<close>

theorem insert_at_leaf_raises:
  "resolve tree_xy ''/x'' (Some (cwd tree_xy)) = Inr (Some 2) \<and>
   kind (nodes tree_xy 2) = ValueNode \<and>
   snd (insert ''/x'' 1 tree_xy) = Inl AttributeError \<and>
   snd (insert ''/x/z'' 1 tree_xy) = Inl AttributeError"
  by code_simp

text \<open>
  Claim C4 (the code differs). \<^verbatim>\<open>do_mv\<close> calls \<^verbatim>\<open>_rm_node\<close> before \<^verbatim>\<open>insert\<close>.
  In the tree built from \<^verbatim>\<open>{"x": 1, "y": 2}\<close>, \<^verbatim>\<open>mv /y /x/z\<close> passes the three
  guards (the destination does not resolve), detaches \<^verbatim>\<open>/y\<close> from the root, and
  then \<^verbatim>\<open>insert\<close> raises \<^verbatim>\<open>AttributeError\<close> on the Leaf \<^verbatim>\<open>/x\<close>. The command fails
  and the tree has lost \<^verbatim>\<open>y\<close>.
\<close>

theorem mv_below_leaf_detaches_source:
  "serialize tree_xy = Some [(''y'', VLeaf 2), (''x'', VLeaf 1)] \<and>
   children (nodes tree_xy (root tree_xy)) = [1, 2] \<and>
   map_option snd (do_mv ''/y'' ''/x/z'' tree_xy) = Some (Raised AttributeError) \<and>
   map_option (\<lambda>(st, out). children (nodes st (root st))) (do_mv ''/y'' ''/x/z'' tree_xy) = Some [2] \<and>
   map_option (\<lambda>(st, out). serialize st) (do_mv ''/y'' ''/x/z'' tree_xy) = Some (Some [(''x'', VLeaf 1)])"
  by code_simp

section \<open>Colliding keys in the build\<close>

lemma descend_append:
  "descend (pre @ post) par st =
     (case descend pre par st of
        (st1, Inl e) \<Rightarrow> (st1, Inl e)
      | (st1, Inr p) \<Rightarrow> descend post p st1)"
  by (induction pre arbitrary: par st)
     (auto split: option.splits sum.splits prod.splits)

text \<open>
  Claim C8, as the code has it. The build of \<^verbatim>\<open>{"a.b": 2, "a": 1}\<close> makes the Leaf
  \<^verbatim>\<open>a\<close> first (the stack is popped from the end) and then fails on \<^verbatim>\<open>a.b\<close> by
  the \<^verbatim>\<open>assert\<close>: an \<^verbatim>\<open>AssertionError\<close>, not a \<open>MalformedInput\<close> value. And the
  build of \<^verbatim>\<open>{"a.c": 3, "a": 1, "a.b": 2}\<close> does not fail at all, although the Leaf
  \<^verbatim>\<open>a\<close> exists when \<^verbatim>\<open>a.c\<close> is split: \<^verbatim>\<open>child\<close> returns the first child named
  \<^verbatim>\<open>a\<close>, the \<^verbatim>\<open>PartialNode\<close> made for \<^verbatim>\<open>a.b\<close>, and the root ends with two
  children named \<^verbatim>\<open>a\<close>.
\<close>

theorem build_collision_counterexample:
  "map_sum id (\<lambda>st. ()) (init [(''a.b'', VLeaf 2), (''a'', VLeaf (1::int))] store0) = Inl AssertionError \<and>
   (case init [(''a.c'', VLeaf 3), (''a'', VLeaf 1), (''a.b'', VLeaf 2)] store0 of
      Inl e \<Rightarrow> False
    | Inr st \<Rightarrow>
        map (\<lambda>c. (kind (nodes st c), name (nodes st c))) (children (nodes st (root st))) =
          [(PartialNode, ''a''), (ValueNode, ''a'')] \<and>
        serialize st = Some [(''a.b'', VLeaf 2), (''a.c'', VLeaf 3), (''a'', VLeaf 1)])"
  by code_simp

text \<open>
  Claim C8, amended. When the build comes to a key with a dot and a value that is not a
  mapping, and, below the \<^verbatim>\<open>PartialNode\<close>s that exist already for the segments before
  it (\<open>descend pre\<close> changes nothing), the first child named like a segment that is not
  the last is not a \<^verbatim>\<open>PartialNode\<close> (it is a Leaf or a Group), the build stops there
  with an \<^verbatim>\<open>AssertionError\<close> and leaves the store as it was at that point.
\<close>

theorem build_collision_asserts:
  assumes "CHR ''.'' \<in> set nm"
    and "butlast (split_on CHR ''.'' nm) = pre @ chunk # chunks"
    and "descend pre par st = (st, Inr p)"
    and "child st p chunk = Some n"
    and "kind (nodes st n) \<noteq> PartialNode"
  shows "build_loop ((VLeaf x, nm, par) # stack) st = (st, Inl AssertionError)"
  using assms by (simp add: descend_append)

theorem build_collision_asserts_witness:
  "CHR ''.'' \<in> set ''a.b'' \<and>
   butlast (split_on CHR ''.'' ''a.b'') = [] @ ''a'' # [] \<and>
   descend [] 0 tree_a = (tree_a, Inr 0) \<and>
   child tree_a 0 ''a'' = Some 1 \<and>
   kind (nodes tree_a 1) = ValueNode \<and>
   build_loop [(VLeaf 2, ''a.b'', 0)] tree_a = (tree_a, Inl AssertionError)"
proof -
  have h1: "CHR ''.'' \<in> set ''a.b''" by simp
  have h2: "butlast (split_on CHR ''.'' ''a.b'') = [] @ ''a'' # []" by simp
  have h3: "descend [] 0 tree_a = (tree_a, Inr 0)" by simp
  have h4: "child tree_a 0 ''a'' = Some 1" by code_simp
  have h5: "kind (nodes tree_a 1) = ValueNode" by code_simp
  then have h6: "kind (nodes tree_a 1) \<noteq> PartialNode" by simp
  from build_collision_asserts [OF h1 h2 h3 h4 h6, of 2 "[]"] h1 h2 h3 h4 h5
  show ?thesis by blast
qed

section \<open>Sibling names\<close>

lemma distinct_map_remove1:
  "distinct (map f xs) \<Longrightarrow> distinct (map f (remove1 x xs))"
proof (induction xs)
  case Nil
  then show ?case by simp
next
  case (Cons a xs)
  have "f a \<notin> f ` set (remove1 x xs)" if "f a \<notin> f ` set xs"
    using that set_remove1_subset [of x xs] by blast
  with Cons show ?case by auto
qed

lemma detach_Inr:
  assumes "detach n st = Inr (st1, p)"
  shows "parent (nodes st n) = Some p" and "kind (nodes st p) \<noteq> ValueNode"
    and "n \<in> set (children (nodes st p))"
    and "st1 = st\<lparr>nodes := (nodes st)
             (p := (nodes st p)\<lparr>children := remove1 n (children (nodes st p))\<rparr>)\<rparr>"
  using assms by (auto simp: detach_def split: option.splits if_splits)

lemma detach_fields:
  assumes "detach n st = Inr (st1, p)"
  shows "name (nodes st1 q) = name (nodes st q)"
    and "kind (nodes st1 q) = kind (nodes st q)"
    and "parent (nodes st1 q) = parent (nodes st q)"
    and "valref (nodes st1 q) = valref (nodes st q)"
    and "children (nodes st1 q) =
           (if q = p then remove1 n (children (nodes st p)) else children (nodes st q))"
    and "next_ref st1 = next_ref st" and "next_val st1 = next_val st"
    and "vals st1 = vals st" and "root st1 = root st" and "cwd st1 = cwd st"
    and "dirty st1 = dirty st"
  by (simp_all add: detach_Inr(4) [OF assms])

lemma detach_sibling_names:
  assumes "sibling_names_unique st" and "detach n st = Inr (st1, p)"
  shows "sibling_names_unique st1"
proof -
  have "distinct (map (\<lambda>c. name (nodes st1 c)) (children (nodes st1 r)))"
    if "distinct (map (\<lambda>c. name (nodes st c)) (children (nodes st r)))" for r
    using that by (auto simp: detach_fields [OF assms(2)] intro: distinct_map_remove1)
  with assms(1) show ?thesis
    by (simp add: sibling_names_unique_def list_all_iff detach_fields(6) [OF assms(2)])
qed

lemma prune_loop_sibling_names:
  assumes "prune_loop n st = Some (st', res)" and "sibling_names_unique st"
  shows "sibling_names_unique st'"
proof -
  have "sibling_names_unique st \<longrightarrow> sibling_names_unique (fst y)"
    if "prune_loop n st = Some y" for y
  proof (rule prune_loop.raw_induct
      [where P = "\<lambda>n st y. sibling_names_unique st \<longrightarrow> sibling_names_unique (fst y)", OF _ that])
    fix f n st y
    assume IH: "\<And>n st y. f n st = Some y \<Longrightarrow>
        sibling_names_unique st \<longrightarrow> sibling_names_unique (fst y)"
      and eq: "(if kind (nodes st n) = ValueNode then Some (st, Inl AttributeError)
          else if children (nodes st n) = [] \<and> kind (nodes st n) = PartialNode \<and> \<not> is_root st n
               then case detach n st of Inl x \<Rightarrow> Some (st, Inl x) | Inr (st1, p) \<Rightarrow> f p st1
               else Some (st, Inr ())) = Some y"
    show "sibling_names_unique st \<longrightarrow> sibling_names_unique (fst y)"
    proof
      assume u: "sibling_names_unique st"
      show "sibling_names_unique (fst y)"
      proof (cases "detach n st")
        case (Inl x)
        with eq u show ?thesis by (auto split: if_splits)
      next
        case (Inr pr)
        obtain st1 p where pr: "pr = (st1, p)" by (cases pr)
        with Inr u have "sibling_names_unique st1" by (auto dest: detach_sibling_names)
        with eq Inr pr u IH [of p st1 y] show ?thesis by (auto split: if_splits)
      qed
    qed
  qed
  with assms show ?thesis by fastforce
qed

lemma rm_node_sibling_names:
  assumes "rm_node n st = Some (st', res)" and "sibling_names_unique st"
  shows "sibling_names_unique st'"
proof (cases "detach n st")
  case (Inl x)
  with assms show ?thesis by (simp add: rm_node_def)
next
  case (Inr pr)
  obtain st1 p where pr: "pr = (st1, p)" by (cases pr)
  with Inr assms(2) have "sibling_names_unique st1" by (auto dest: detach_sibling_names)
  with assms(1) Inr pr show ?thesis
    by (auto simp: rm_node_def dest: prune_loop_sibling_names)
qed

lemma sibling_names_dirty [simp]:
  "sibling_names_unique (st\<lparr>dirty := b\<rparr>) = sibling_names_unique st"
  by (simp add: sibling_names_unique_def)

lemma do_rm_sibling_names:
  assumes "sibling_names_unique st" and "do_rm path st = Some (st', out)"
  shows "sibling_names_unique st'"
proof -
  have "sibling_names_unique st1" if "rm_node n st = Some (st1, res)" for n st1 res
    using that assms(1) by (rule rm_node_sibling_names)
  with assms show ?thesis
    by (auto simp: do_rm_def split: sum.splits option.splits if_splits)
qed

lemma add_child_sibling_names:
  assumes "sibling_names_unique st" and "r < next_ref st" and "add_child r c st = Inr st'"
  shows "sibling_names_unique st' =
         (name (nodes st c) \<notin> set (map (\<lambda>c. name (nodes st c)) (children (nodes st r))))"
proof -
  from assms(3) have st': "st' = st\<lparr>nodes := (nodes st)(r := (nodes st r)\<lparr>children := children (nodes st r) @ [c]\<rparr>)\<rparr>"
    by (auto simp: add_child_def split: if_splits)
  have nm: "name (nodes st' q) = name (nodes st q)" for q
    by (simp add: st')
  have ch: "children (nodes st' q) = (if q = r then children (nodes st r) @ [c] else children (nodes st q))" for q
    by (simp add: st')
  have nx: "next_ref st' = next_ref st"
    by (simp add: st')
  from assms(1,2) have dr: "distinct (map (\<lambda>c. name (nodes st c)) (children (nodes st r)))"
    by (simp add: sibling_names_unique_def list_all_iff)
  show ?thesis
  proof
    assume "sibling_names_unique st'"
    with assms(2) have "distinct (map (\<lambda>c. name (nodes st' c)) (children (nodes st' r)))"
      by (simp add: sibling_names_unique_def list_all_iff nx)
    then show "name (nodes st c) \<notin> set (map (\<lambda>c. name (nodes st c)) (children (nodes st r)))"
      by (simp add: nm ch)
  next
    assume "name (nodes st c) \<notin> set (map (\<lambda>c. name (nodes st c)) (children (nodes st r)))"
    with dr assms(1) show "sibling_names_unique st'"
      by (auto simp: sibling_names_unique_def list_all_iff nx nm ch)
  qed
qed

text \<open>
  Claim C6, as the code has it. \<^verbatim>\<open>add_child\<close> appends without looking at the names
  that are there. In the tree built from \<^verbatim>\<open>{"x": 1, "d.x": 2}\<close>, whose sibling names
  are unique, \<^verbatim>\<open>mv /x /d\<close> and \<^verbatim>\<open>cp /x /d\<close> both succeed and leave \<^verbatim>\<open>/d\<close> with
  two children named \<^verbatim>\<open>x\<close>; and the build of \<^verbatim>\<open>{"a": 1, "a.b": 2}\<close> gives the
  root a \<^verbatim>\<open>PartialNode\<close> and a \<^verbatim>\<open>ValueNode\<close> both named \<^verbatim>\<open>a\<close>.
\<close>

theorem sibling_names_counterexample:
  "sibling_names_unique tree_xdx \<and>
   map_option (\<lambda>(st, out). (out, sibling_names_unique st,
        map (\<lambda>c. name (nodes st c)) (children (nodes st 1)))) (do_mv ''/x'' ''/d'' tree_xdx)
     = Some (Returned, False, [''x'', ''x'']) \<and>
   map_option (\<lambda>(st, out). (out, sibling_names_unique st,
        map (\<lambda>c. name (nodes st c)) (children (nodes st 1)))) (do_cp ''/x'' ''/d'' tree_xdx)
     = Some (Returned, False, [''x'', ''x'']) \<and>
   (case init [(''a'', VLeaf 1), (''a.b'', VLeaf 2)] store0 of
      Inl e \<Rightarrow> False
    | Inr st \<Rightarrow> \<not> sibling_names_unique st)"
  by code_simp

text \<open>
  Claim C6, amended. \<^verbatim>\<open>rm\<close> keeps sibling names unique, whatever its outcome. The
  other operations attach a node with \<^verbatim>\<open>add_child\<close>, and attaching \<open>c\<close> to an
  allocated node \<open>r\<close> of a store with unique sibling names gives a store with unique
  sibling names exactly when no child of \<open>r\<close> has the name of \<open>c\<close> already.
\<close>

theorem sibling_names_rm_add_child:
  "(sibling_names_unique st \<and> do_rm path st = Some (st', out) \<longrightarrow> sibling_names_unique st') \<and>
   (sibling_names_unique st \<and> r < next_ref st \<and> add_child r c st = Inr st'' \<longrightarrow>
      sibling_names_unique st'' =
        (name (nodes st c) \<notin> set (map (\<lambda>c. name (nodes st c)) (children (nodes st r)))))"
  using do_rm_sibling_names add_child_sibling_names by blast

theorem sibling_names_rm_add_child_witness:
  "sibling_names_unique tree_abcd \<and>
   (\<exists>st'. do_rm ''/a/b/c'' tree_abcd = Some (st', Returned) \<and> sibling_names_unique st') \<and>
   sibling_names_unique tree_xdx \<and> (1::nat) < next_ref tree_xdx \<and>
   (\<exists>st''. add_child 1 3 tree_xdx = Inr st'' \<and> \<not> sibling_names_unique st'') \<and>
   name (nodes tree_xdx 3) \<in> set (map (\<lambda>c. name (nodes tree_xdx c)) (children (nodes tree_xdx 1)))"
proof -
  have u1: "sibling_names_unique tree_abcd" by code_simp
  have "map_option snd (do_rm ''/a/b/c'' tree_abcd) = Some Returned" by code_simp
  then obtain st' where rm: "do_rm ''/a/b/c'' tree_abcd = Some (st', Returned)" by auto
  have u2: "sibling_names_unique tree_xdx" by code_simp
  have lt: "(1::nat) < next_ref tree_xdx" by code_simp
  have "map_sum id (\<lambda>st. ()) (add_child 1 3 tree_xdx) = Inr ()" by code_simp
  then obtain st'' where ac: "add_child 1 3 tree_xdx = Inr st''"
    by (cases "add_child 1 3 tree_xdx") auto
  have mem: "name (nodes tree_xdx 3) \<in> set (map (\<lambda>c. name (nodes tree_xdx c)) (children (nodes tree_xdx 1)))"
    by code_simp
  from sibling_names_rm_add_child [of tree_abcd "''/a/b/c''" st' Returned 1 3 st''] u1 rm
  have a: "sibling_names_unique st'" by blast
  from sibling_names_rm_add_child [of tree_xdx "''/a/b/c''" st' Returned 1 3 st''] u2 lt ac mem
  have b: "\<not> sibling_names_unique st''" by blast
  from u1 rm a u2 lt ac b mem show ?thesis by blast
qed

section \<open>A copy allocates and never overwrites\<close>

lemma extends_refl: "extends st st"
  by (simp add: extends_def)

lemma extends_trans: "extends a b \<Longrightarrow> extends b c \<Longrightarrow> extends a c"
  by (auto simp: extends_def)

lemma extends_new_object: "new_object k st = (st1, y) \<Longrightarrow> extends st st1 \<and> y = next_ref st \<and> next_ref st1 = Suc y"
  by (auto simp: new_object_def extends_def Let_def)

lemma extends_set_attrs:
  "extends st st1 \<Longrightarrow> next_ref st \<le> y \<Longrightarrow> extends st (set_attrs y attrs st1)"
  by (auto simp: set_attrs_def extends_def)

lemma set_attrs_next [simp]: "next_ref (set_attrs y attrs st) = next_ref st"
  "next_val (set_attrs y attrs st) = next_val st"
  by (simp_all add: set_attrs_def)

lemma extends_copy_value:
  "copy_value v (st, ms) = ((st1, ms1), v') \<Longrightarrow> extends st st1"
  by (cases ms) (auto simp: copy_value_def new_value_def extends_def Let_def split: option.splits)

text \<open>One unfolding of the copy of a node that the memo does not have.\<close>

lemma deepcopy_Suc_cases:
  assumes "deepcopy (Suc fuel) r (st, memo, vmemo) = Some ((st', ms'), y)"
  obtains (hit) "memo r = Some y" "st' = st" "ms' = (memo, vmemo)"
  | (copied) st1 st2 ms2 p' st3 attrs where
      "memo r = None" "new_object (kind (nodes st r)) st = (st1, y)"
      "case parent (nodes st r) of
         None \<Rightarrow> (st2, ms2) = (st1, memo(r \<mapsto> y), vmemo) \<and> p' = None
       | Some p \<Rightarrow> \<exists>q. deepcopy fuel p (st1, memo(r \<mapsto> y), vmemo) = Some ((st2, ms2), q) \<and> p' = Some q"
      "if kind (nodes st r) = ValueNode
       then \<exists>v'. copy_value (valref (nodes st r)) (st2, ms2) = ((st3, ms'), v') \<and>
              attrs = \<lparr>kind = ValueNode, parent = p', name = name (nodes st r), children = [], valref = v'\<rparr>
       else \<exists>cs'. deepcopy_list fuel (children (nodes st r)) (st2, ms2) = Some ((st3, ms'), cs') \<and>
              attrs = \<lparr>kind = kind (nodes st r), parent = p', name = name (nodes st r),
                       children = cs', valref = valref (nodes st r)\<rparr>"
      "st' = set_attrs y attrs st3"
proof (cases "memo r")
  case (Some z)
  with assms show ?thesis by (auto intro: hit)
next
  case None
  obtain st1 y1 where no: "new_object (kind (nodes st r)) st = (st1, y1)"
    by (cases "new_object (kind (nodes st r)) st")
  show ?thesis
  proof (cases "parent (nodes st r)")
    case pn: None
    show ?thesis
    proof (cases "kind (nodes st r) = ValueNode")
      case True
      with assms None no pn show ?thesis
        by (auto simp: Let_def split: prod.splits intro!: copied [where p' = None])
    next
      case False
      with assms None no pn show ?thesis
        by (auto simp: Let_def split: prod.splits option.splits intro!: copied [where p' = None])
    qed
  next
    case (Some p)
    show ?thesis
    proof (cases "kind (nodes st r) = ValueNode")
      case True
      with assms None no Some show ?thesis
        by (auto simp: Let_def split: prod.splits option.splits intro!: copied)
    next
      case False
      with assms None no Some show ?thesis
        by (auto simp: Let_def split: prod.splits option.splits intro!: copied)
    qed
  qed
qed


lemma copy_inv_refl: "copy_inv bv s s"
  by (simp add: copy_inv_def extends_refl fresh_leaves_def)

lemma fresh_leaves_extends:
  assumes "fresh_leaves bv lo b" and "extends b c" and "fresh_leaves bv (next_ref b) c"
  shows "fresh_leaves bv lo c"
  unfolding fresh_leaves_def
proof (intro allI impI)
  fix q
  assume q: "lo \<le> q \<and> q < next_ref c \<and> kind (nodes c q) = ValueNode"
  show "bv \<le> valref (nodes c q)"
  proof (cases "q < next_ref b")
    case True
    with assms(2) have "nodes c q = nodes b q" by (simp add: extends_def)
    with True q assms(1) show ?thesis by (simp add: fresh_leaves_def)
  next
    case False
    with q assms(3) show ?thesis by (simp add: fresh_leaves_def)
  qed
qed

lemma copy_inv_trans:
  assumes "copy_inv bv a b" and "copy_inv bv b c"
  shows "copy_inv bv a c"
proof -
  from assms have e: "extends (fst a) (fst b)" "extends (fst b) (fst c)"
    by (simp_all add: copy_inv_def)
  then have ec: "extends (fst a) (fst c)" by (rule extends_trans)
  have "fresh_vmemo bv (snd (snd c)) \<and> fresh_leaves bv (next_ref (fst a)) (fst c)"
    if f: "fresh_vmemo bv (snd (snd a))" and le: "bv \<le> next_val (fst a)"
  proof -
    from assms(1) f le have b: "fresh_vmemo bv (snd (snd b))"
      "fresh_leaves bv (next_ref (fst a)) (fst b)"
      by (simp_all add: copy_inv_def)
    from e(1) le have "bv \<le> next_val (fst b)" by (simp add: extends_def)
    with assms(2) b(1) have c: "fresh_vmemo bv (snd (snd c))"
      "fresh_leaves bv (next_ref (fst b)) (fst c)"
      by (simp_all add: copy_inv_def)
    from fresh_leaves_extends [OF b(2) e(2) c(2)] c(1) show ?thesis by simp
  qed
  with ec show ?thesis by (simp add: copy_inv_def)
qed

lemma copy_inv_copy_value:
  assumes "copy_value v (st, ms) = ((st1, ms1), v')"
  shows "copy_inv bv (st, ms) (st1, ms1) \<and> next_ref st1 = next_ref st \<and> nodes st1 = nodes st \<and>
         (fresh_vmemo bv (snd ms) \<longrightarrow> bv \<le> next_val st \<longrightarrow> bv \<le> v')"
proof (cases ms)
  case (Pair memo vmemo)
  show ?thesis
  proof (cases "vmemo v")
    case None
    with assms Pair show ?thesis
      by (auto simp: copy_value_def new_value_def Let_def copy_inv_def extends_def
            fresh_vmemo_def fresh_leaves_def split: if_splits)
  next
    case (Some w)
    with assms Pair show ?thesis
      by (auto simp: copy_value_def copy_inv_def extends_def fresh_vmemo_def fresh_leaves_def)
  qed
qed

lemma copy_inv_wrap:
  assumes no: "new_object k st = (st1, y)"
    and inner: "copy_inv bv (st1, memo1, vmemo) (st3, ms')"
    and attrs: "kind attrs = ValueNode \<longrightarrow> fresh_vmemo bv vmemo \<longrightarrow> bv \<le> next_val st \<longrightarrow> bv \<le> valref attrs"
  shows "copy_inv bv (st, memo, vmemo) (set_attrs y attrs st3, ms')"
proof -
  from extends_new_object [OF no] have e1: "extends st st1" and y: "y = next_ref st"
    and n1: "next_ref st1 = Suc y" by simp_all
  from inner have e3: "extends st1 st3" by (simp add: copy_inv_def)
  from extends_trans [OF e1 e3] have "extends st st3" .
  then have e: "extends st (set_attrs y attrs st3)"
    by (rule extends_set_attrs) (simp add: y)
  have "fresh_vmemo bv (snd ms') \<and> fresh_leaves bv (next_ref st) (set_attrs y attrs st3)"
    if f: "fresh_vmemo bv vmemo" and le: "bv \<le> next_val st"
  proof -
    from e1 le have "bv \<le> next_val st1" by (simp add: extends_def)
    with inner f have i: "fresh_vmemo bv (snd ms')" "fresh_leaves bv (Suc y) st3"
      by (simp_all add: copy_inv_def n1)
    have "fresh_leaves bv (next_ref st) (set_attrs y attrs st3)"
      unfolding fresh_leaves_def
    proof (intro allI impI)
      fix q
      assume q: "next_ref st \<le> q \<and> q < next_ref (set_attrs y attrs st3) \<and>
          kind (nodes (set_attrs y attrs st3) q) = ValueNode"
      show "bv \<le> valref (nodes (set_attrs y attrs st3) q)"
      proof (cases "q = y")
        case True
        with q attrs f le show ?thesis by (simp add: set_attrs_def)
      next
        case False
        with q y have "Suc y \<le> q" by simp
        with q False i(2) show ?thesis by (simp add: set_attrs_def fresh_leaves_def)
      qed
    qed
    with i(1) show ?thesis by simp
  qed
  with e show ?thesis by (simp add: copy_inv_def)
qed

lemma deepcopy_list_inv:
  assumes node: "\<And>r (s :: 'v state \<times> copying) s' y.
            deepcopy fuel r s = Some (s', y) \<Longrightarrow> copy_inv bv s s'"
    and "deepcopy_list fuel cs (s :: 'v state \<times> copying) = Some (s', ys)"
  shows "copy_inv bv s s'"
  using assms(2)
proof (induction cs arbitrary: s ys)
  case Nil
  then show ?case by (simp add: copy_inv_refl)
next
  case (Cons c cs)
  from Cons.prems obtain s1 c' ys' where c: "deepcopy fuel c s = Some (s1, c')"
    and cs: "deepcopy_list fuel cs s1 = Some (s', ys')"
    by (auto split: option.splits)
  from node [OF c] Cons.IH [OF cs] show ?case by (rule copy_inv_trans)
qed

lemma deepcopy_inv:
  "deepcopy fuel r s = Some (s', y) \<Longrightarrow> copy_inv bv s s'"
proof (induction fuel arbitrary: r s s' y)
  case 0
  then show ?case by simp
next
  case (Suc fuel)
  obtain st memo vmemo where s: "s = (st, memo, vmemo)" by (cases s)
  obtain st' ms' where s': "s' = (st', ms')" by (cases s')
  from Suc.prems s s' have d: "deepcopy (Suc fuel) r (st, memo, vmemo) = Some ((st', ms'), y)"
    by simp
  from d show ?case
  proof (cases rule: deepcopy_Suc_cases)
    case hit
    then show ?thesis by (simp add: s s' copy_inv_refl)
  next
    case (copied st1 st2 ms2 p' st3 attrs)
    have par: "copy_inv bv (st1, memo(r \<mapsto> y), vmemo) (st2, ms2)"
    proof (cases "parent (nodes st r)")
      case None
      with copied(3) show ?thesis by (simp add: copy_inv_refl)
    next
      case (Some p)
      with copied(3) obtain q where
        "deepcopy fuel p (st1, memo(r \<mapsto> y), vmemo) = Some ((st2, ms2), q)" by auto
      then show ?thesis by (rule Suc.IH)
    qed
    from extends_new_object [OF copied(2)] have e1: "extends st st1" by simp
    have rest: "copy_inv bv (st2, ms2) (st3, ms') \<and>
        (kind attrs = ValueNode \<longrightarrow> fresh_vmemo bv vmemo \<longrightarrow> bv \<le> next_val st \<longrightarrow> bv \<le> valref attrs)"
    proof (cases "kind (nodes st r) = ValueNode")
      case True
      with copied(4) obtain v' where cv: "copy_value (valref (nodes st r)) (st2, ms2) = ((st3, ms'), v')"
        and at: "valref attrs = v'" by auto
      from par have e2: "extends st1 st2" by (simp add: copy_inv_def)
      have "bv \<le> v'" if f: "fresh_vmemo bv vmemo" and le: "bv \<le> next_val st"
      proof -
        from e1 le have le1: "bv \<le> next_val st1" by (simp add: extends_def)
        with par f have "fresh_vmemo bv (snd ms2)" by (simp add: copy_inv_def)
        moreover from e2 le1 have "bv \<le> next_val st2" by (simp add: extends_def)
        ultimately show ?thesis using copy_inv_copy_value [OF cv, of bv] by simp
      qed
      with copy_inv_copy_value [OF cv, of bv] at show ?thesis by simp
    next
      case False
      with copied(4) obtain cs' where dl: "deepcopy_list fuel (children (nodes st r)) (st2, ms2) = Some ((st3, ms'), cs')"
        and at: "kind attrs = kind (nodes st r)" by auto
      from deepcopy_list_inv [OF Suc.IH dl] at False show ?thesis by simp
    qed
    from copy_inv_trans [OF par] rest have "copy_inv bv (st1, memo(r \<mapsto> y), vmemo) (st3, ms')"
      by simp
    from copy_inv_wrap [OF copied(2) this] rest copied(5) show ?thesis
      by (simp add: s s')
  qed
qed

section \<open>Cloning leaves the original as it was\<close>

lemma clone_result:
  assumes "clone self clone_parent nm st = Some (st', c)"
  obtains st2 ms2 where
    "deepcopy (Suc (next_ref st)) self (set_parent self None st, Map.empty, Map.empty) = Some ((st2, ms2), c)"
    "st' = (case nm of None \<Rightarrow> (\<lambda>s. s) | Some n \<Rightarrow> set_name c n)
             (set_parent self (parent (nodes st self)) (set_parent c clone_parent st2))"
  using assms
  by (auto simp: clone_def Let_def split: option.splits prod.splits)

lemma clone_extends:
  assumes "clone self clone_parent nm st = Some (st', c)" and "self < next_ref st"
  shows "extends st st' \<and> c = next_ref st \<and> c < next_ref st' \<and>
         parent (nodes st' c) = clone_parent \<and>
         kind (nodes st' c) = kind (nodes st self) \<and>
         name (nodes st' c) = (case nm of None \<Rightarrow> name (nodes st self) | Some n \<Rightarrow> n)"
proof -
  let ?st1 = "set_parent self None st"
  from assms(1) obtain st2 ms2 where
    dc: "deepcopy (Suc (next_ref st)) self (?st1, Map.empty, Map.empty) = Some ((st2, ms2), c)"
    and st': "st' = (case nm of None \<Rightarrow> (\<lambda>s. s) | Some n \<Rightarrow> set_name c n)
             (set_parent self (parent (nodes st self)) (set_parent c clone_parent st2))"
    by (rule clone_result)
  from deepcopy_inv [OF dc, of 0] have e12: "extends ?st1 st2"
    by (simp add: copy_inv_def)
  have n1: "next_ref ?st1 = next_ref st" by (simp add: set_parent_def)
  from dc have c: "c = next_ref st \<and> c < next_ref st2 \<and>
      kind (nodes st2 c) = kind (nodes st self) \<and> name (nodes st2 c) = name (nodes st self)"
  proof (cases rule: deepcopy_Suc_cases)
    case hit
    then show ?thesis by simp
  next
    case (copied st1 st2' ms2' p' st3 attrs)
    from extends_new_object [OF copied(2)] n1 have y: "c = next_ref st" by simp
    from e12 have "next_ref ?st1 \<le> next_ref st2" by (simp add: extends_def)
    from copied(4) have "kind attrs = kind (nodes ?st1 self) \<and> name attrs = name (nodes ?st1 self)"
      by (auto split: if_splits)
    then have at: "kind attrs = kind (nodes st self) \<and> name attrs = name (nodes st self)"
      by (simp add: set_parent_def)
    have lt: "c < next_ref st2"
    proof -
      from extends_new_object [OF copied(2)] have "next_ref st1 = Suc c" by simp
      moreover have "next_ref st1 \<le> next_ref st3"
      proof -
        have a: "next_ref st1 \<le> next_ref st2'"
          using copied(3) deepcopy_inv [of _ _ "(st1, Map.empty(self \<mapsto> c), Map.empty)" "(st2', ms2')" _ 0]
          by (auto split: option.splits simp: copy_inv_def extends_def)
        have b: "next_ref st2' \<le> next_ref st3"
        proof (cases "kind (nodes ?st1 self) = ValueNode")
          case True
          with copied(4) show ?thesis
            using copy_inv_copy_value [of _ st2' ms2' st3 ms2 _ 0] by auto
        next
          case False
          with copied(4) obtain cs' where
            "deepcopy_list (next_ref st) (children (nodes ?st1 self)) (st2', ms2') = Some ((st3, ms2), cs')"
            by auto
          from deepcopy_list_inv [where bv = 0, OF deepcopy_inv this] show ?thesis
            by (simp add: copy_inv_def extends_def)
        qed
        from a b show ?thesis by simp
      qed
      ultimately show ?thesis using copied(5) by simp
    qed
    from y lt at copied(5) show ?thesis by (simp add: set_attrs_def)
  qed
  then have cs: "c \<noteq> self" using assms(2) by simp
  have ext: "extends st st'"
  proof -
    have nodes: "nodes st' r = nodes st r" if "r < next_ref st" for r
    proof -
      from that c have rc: "r \<noteq> c" by simp
      from e12 that n1 have r2: "nodes st2 r = nodes ?st1 r" by (simp add: extends_def)
      show ?thesis
      proof (cases "r = self")
        case True
        with rc r2 cs show ?thesis
          by (cases nm) (simp_all add: st' set_parent_def set_name_def)
      next
        case False
        with rc r2 show ?thesis
          by (cases nm) (simp_all add: st' set_parent_def set_name_def)
      qed
    qed
    from e12 have rest: "next_ref st \<le> next_ref st' \<and> next_val st \<le> next_val st' \<and>
        (\<forall>v. v < next_val st \<longrightarrow> vals st' v = vals st v) \<and>
        root st' = root st \<and> cwd st' = cwd st \<and> dirty st' = dirty st"
      by (cases nm) (simp_all add: st' extends_def set_parent_def set_name_def)
    with nodes show ?thesis by (simp add: extends_def)
  qed
  from c cs have "c < next_ref st' \<and> parent (nodes st' c) = clone_parent \<and>
      kind (nodes st' c) = kind (nodes st self) \<and>
      name (nodes st' c) = (case nm of None \<Rightarrow> name (nodes st self) | Some n \<Rightarrow> n)"
    by (cases nm) (auto simp: st' set_parent_def set_name_def)
  with ext c show ?thesis by simp
qed

text \<open>
  Claim C10. When \<^verbatim>\<open>clone\<close> returns for an allocated node \<open>self\<close>, the node object
  \<open>self\<close> is what it was before the call, its \<^verbatim>\<open>parent\<close> included, and so is every
  other node and value object that existed before; root, working directory and dirty
  flag are the same. The clone is a new object, and its \<^verbatim>\<open>parent\<close> is
  \<open>clone_parent\<close>.
\<close>

theorem clone_frame:
  assumes "clone self clone_parent nm st = Some (st', c)" and "self < next_ref st"
  shows "nodes st' self = nodes st self \<and>
         (\<forall>r. r < next_ref st \<longrightarrow> nodes st' r = nodes st r) \<and>
         (\<forall>v. v < next_val st \<longrightarrow> vals st' v = vals st v) \<and>
         root st' = root st \<and> cwd st' = cwd st \<and> dirty st' = dirty st \<and>
         next_ref st \<le> c \<and> c < next_ref st' \<and>
         parent (nodes st' c) = clone_parent"
  using clone_extends [OF assms] assms(2) by (auto simp: extends_def)

text \<open>
  The clone of \<^verbatim>\<open>/a/b\<close> in the tree built from \<^verbatim>\<open>{"a.b.c": 1, "a.b.d": 2}\<close>, with
  the root as \<open>clone_parent\<close>: node 2 still has parent 1 and its two children.
\<close>

theorem clone_frame_witness:
  "(2::nat) < next_ref tree_abcd \<and>
   (\<exists>st'. clone 2 (Some 0) None tree_abcd = Some (st', 5) \<and>
      nodes st' 2 = nodes tree_abcd 2 \<and> parent (nodes st' 2) = Some 1 \<and>
      children (nodes st' 2) = [3, 4] \<and> parent (nodes st' 5) = Some 0 \<and> 5 < next_ref st')"
proof -
  have lt: "(2::nat) < next_ref tree_abcd" by code_simp
  have "map_option snd (clone 2 (Some 0) None tree_abcd) = Some 5" by code_simp
  then obtain st' where cl: "clone 2 (Some 0) None tree_abcd = Some (st', 5)" by auto
  have p: "parent (nodes tree_abcd 2) = Some 1" "children (nodes tree_abcd 2) = [3, 4]"
    by code_simp+
  from clone_frame [OF cl lt] p cl lt show ?thesis by simp
qed

section \<open>Copying attaches a new subtree and removes nothing\<close>

lemma attaches_refl: "attaches lo st st"
  by (auto simp: attaches_def)

lemma attaches_trans:
  assumes "attaches lo a b" and "attaches lo b c"
  shows "attaches lo a c"
proof -
  have old: "kind (nodes c r) = kind (nodes a r) \<and> parent (nodes c r) = parent (nodes a r) \<and>
         name (nodes c r) = name (nodes a r) \<and> valref (nodes c r) = valref (nodes a r) \<and>
         (\<exists>cs. children (nodes c r) = children (nodes a r) @ cs \<and> (\<forall>x \<in> set cs. lo \<le> x))"
    if r: "r < next_ref a" for r
  proof -
    from assms(1) r obtain cs1 where 1: "kind (nodes b r) = kind (nodes a r)"
      "parent (nodes b r) = parent (nodes a r)" "name (nodes b r) = name (nodes a r)"
      "valref (nodes b r) = valref (nodes a r)"
      "children (nodes b r) = children (nodes a r) @ cs1" "\<forall>x \<in> set cs1. lo \<le> x"
      unfolding attaches_def by blast
    from assms(1) r have "r < next_ref b" by (simp add: attaches_def)
    with assms(2) obtain cs2 where 2: "kind (nodes c r) = kind (nodes b r)"
      "parent (nodes c r) = parent (nodes b r)" "name (nodes c r) = name (nodes b r)"
      "valref (nodes c r) = valref (nodes b r)"
      "children (nodes c r) = children (nodes b r) @ cs2" "\<forall>x \<in> set cs2. lo \<le> x"
      unfolding attaches_def by blast
    from 1 2 have "children (nodes c r) = children (nodes a r) @ (cs1 @ cs2) \<and>
        (\<forall>x \<in> set (cs1 @ cs2). lo \<le> x)" by auto
    with 1 2 show ?thesis by metis
  qed
  have new: "kind (nodes c r) = PartialNode" if r: "next_ref a \<le> r \<and> r < next_ref c" for r
  proof (cases "r < next_ref b")
    case True
    with assms(2) have "kind (nodes c r) = kind (nodes b r)" by (simp add: attaches_def)
    with assms(1) r True show ?thesis by (simp add: attaches_def)
  next
    case False
    with assms(2) r show ?thesis by (simp add: attaches_def)
  qed
  from assms have "next_ref a \<le> next_ref c \<and> next_val c = next_val a \<and> vals c = vals a \<and>
      root c = root a \<and> cwd c = cwd a \<and> dirty c = dirty a"
    by (simp add: attaches_def)
  with old new show ?thesis unfolding attaches_def by blast
qed

lemma attaches_add_child:
  assumes "add_child r c st = Inr st'" and "lo \<le> c"
  shows "attaches lo st st'"
proof -
  from assms(1) have st': "st' = st\<lparr>nodes := (nodes st)(r := (nodes st r)\<lparr>children := children (nodes st r) @ [c]\<rparr>)\<rparr>"
    by (auto simp: add_child_def split: if_splits)
  have "\<exists>cs. children (nodes st' q) = children (nodes st q) @ cs \<and> (\<forall>x \<in> set cs. lo \<le> x)" for q
  proof (cases "q = r")
    case True
    with assms(2) show ?thesis by (simp add: st')
  next
    case False
    then show ?thesis by (simp add: st')
  qed
  moreover have "next_ref st' = next_ref st" by (simp add: st')
  ultimately show ?thesis by (auto simp: attaches_def st')
qed

lemma attaches_new_partial:
  assumes "new_node PartialNode p nm v st = (st1, y)"
  shows "attaches lo st st1 \<and> y = next_ref st"
  using assms by (auto simp: new_node_def Let_def attaches_def)

lemma insert_loop_attaches:
  "insert_loop cur parts st = (st', res) \<Longrightarrow> lo \<le> next_ref st \<Longrightarrow> attaches lo st st'"
proof (induction parts arbitrary: cur st)
  case Nil
  then show ?case by (simp add: attaches_refl)
next
  case (Cons elem parts)
  show ?case
  proof (cases "elem = []")
    case True
    with Cons show ?thesis by simp
  next
    case ne: False
    show ?thesis
    proof (cases "child st cur elem")
      case (Some candidate)
      with Cons ne show ?thesis by simp
    next
      case None
      obtain st1 y where nn: "new_node PartialNode (Some cur) elem 0 st = (st1, y)"
        by (cases "new_node PartialNode (Some cur) elem 0 st")
      from attaches_new_partial [OF nn] have a1: "attaches lo st st1" and y: "y = next_ref st"
        by simp_all
      show ?thesis
      proof (cases "add_child cur y st1")
        case (Inl x)
        with Cons.prems ne None nn a1 show ?thesis by simp
      next
        case (Inr st2)
        with Cons.prems(2) y have a2: "attaches lo st1 st2"
          by (auto intro: attaches_add_child)
        from a1 a2 have a12: "attaches lo st st2" by (rule attaches_trans)
        from Cons.prems(1) ne None nn Inr have "insert_loop y parts st2 = (st', res)"
          by simp
        moreover from a12 Cons.prems(2) have "lo \<le> next_ref st2" by (simp add: attaches_def)
        ultimately have "attaches lo st2 st'" by (rule Cons.IH)
        with a12 show ?thesis by (rule attaches_trans)
      qed
    qed
  qed
qed

lemma insert_attaches:
  assumes "insert path node st = (st', res)" and "lo \<le> next_ref st" and "lo \<le> node"
  shows "attaches lo st st'"
proof -
  obtain st1 r1 where il: "insert_loop (root st) (split_on CHR ''/'' path) st = (st1, r1)"
    by (cases "insert_loop (root st) (split_on CHR ''/'' path) st")
  from insert_loop_attaches [OF il assms(2)] have a1: "attaches lo st st1" .
  show ?thesis
  proof (cases r1)
    case (Inl x)
    with assms(1) il a1 show ?thesis by (simp add: insert_def)
  next
    case (Inr cur)
    show ?thesis
    proof (cases "add_child cur node st1")
      case (Inl x)
      with assms(1) il Inr a1 show ?thesis by (simp add: insert_def)
    next
      case st2: (Inr st2)
      from attaches_add_child [OF st2 assms(3)] a1 have "attaches lo st st2"
        by (blast intro: attaches_trans)
      with assms(1) il Inr st2 show ?thesis by (simp add: insert_def)
    qed
  qed
qed

lemma resolve_loop_None: "resolve_loop st None parts \<noteq> Inr (Some m)"
  by (induction parts) auto

lemma resolve_loop_closed:
  assumes "closed st"
  shows "resolve_loop st (Some n) parts = Inr (Some m) \<Longrightarrow> n < next_ref st \<Longrightarrow> m < next_ref st"
proof (induction parts arbitrary: n)
  case Nil
  then show ?case by simp
next
  case (Cons elem parts)
  from assms Cons.prems(2) have cl: "(case parent (nodes st n) of None \<Rightarrow> True | Some p \<Rightarrow> p < next_ref st)"
    "\<forall>c \<in> set (children (nodes st n)). c < next_ref st"
    by (simp_all add: closed_def list_all_iff)
  consider (skip) "elem = [] \<or> elem = ''.''" | (up) "elem = ''..''"
    | (down) "elem \<noteq> []" "elem \<noteq> ''.''" "elem \<noteq> ''..''" by blast
  then show ?case
  proof cases
    case skip
    with Cons show ?thesis by auto
  next
    case up
    show ?thesis
    proof (cases "parent (nodes st n)")
      case None
      with up Cons.prems show ?thesis by (simp add: resolve_loop_None)
    next
      case (Some p)
      with up Cons.prems cl Cons.IH [of p] show ?thesis by simp
    qed
  next
    case down
    show ?thesis
    proof (cases "child st n elem")
      case None
      with down Cons.prems show ?thesis by simp
    next
      case (Some c)
      then have "c \<in> set (children (nodes st n))"
        by (auto simp: child_def find_Some_iff split: if_splits)
      with cl have "c < next_ref st" by simp
      with down Some Cons.prems Cons.IH [of c] show ?thesis by simp
    qed
  qed
qed

lemma resolve_closed:
  assumes "closed st" and "resolve st path (Some (cwd st)) = Inr (Some m)"
  shows "m < next_ref st"
proof -
  from assms(1) have "root st < next_ref st" "cwd st < next_ref st"
    by (simp_all add: closed_def)
  with assms(2) resolve_loop_closed [OF assms(1)] show ?thesis
    by (auto simp: resolve_def Let_def split: if_splits)
qed

lemma old_same_refl: "old_same lo st st"
  by (simp add: old_same_def)

lemma old_same_trans: "old_same lo a b \<Longrightarrow> old_same lo b c \<Longrightarrow> old_same lo a c"
  by (simp add: old_same_def)

lemma one_gained_old_same:
  assumes "one_gained lo a b" and "old_same lo b c"
  shows "one_gained lo a c"
proof -
  from assms(1) obtain x n where x: "x < lo" "lo \<le> n"
    "nodes b x = (nodes a x)\<lparr>children := children (nodes a x) @ [n]\<rparr>"
    "\<forall>r. r < lo \<and> r \<noteq> x \<longrightarrow> nodes b r = nodes a r"
    unfolding one_gained_def by blast
  with assms(2) have "nodes c x = (nodes a x)\<lparr>children := children (nodes a x) @ [n]\<rparr> \<and>
      (\<forall>r. r < lo \<and> r \<noteq> x \<longrightarrow> nodes c r = nodes a r)"
    by (simp add: old_same_def)
  with x(1,2) show ?thesis unfolding one_gained_def by blast
qed

lemma old_same_one_gained:
  assumes "old_same lo a b" and "one_gained lo b c"
  shows "one_gained lo a c"
proof -
  from assms(2) obtain x n where x: "x < lo" "lo \<le> n"
    "nodes c x = (nodes b x)\<lparr>children := children (nodes b x) @ [n]\<rparr>"
    "\<forall>r. r < lo \<and> r \<noteq> x \<longrightarrow> nodes c r = nodes b r"
    unfolding one_gained_def by blast
  with assms(1) have "nodes c x = (nodes a x)\<lparr>children := children (nodes a x) @ [n]\<rparr> \<and>
      (\<forall>r. r < lo \<and> r \<noteq> x \<longrightarrow> nodes c r = nodes a r)"
    by (simp add: old_same_def)
  with x(1,2) show ?thesis unfolding one_gained_def by blast
qed

lemma new_node_old_same:
  assumes "new_node k p nm v st = (st1, y)" and "lo \<le> next_ref st"
  shows "old_same lo st st1" and "y = next_ref st" and "next_ref st1 = Suc y"
    and "children (nodes st1 y) = []"
  using assms by (auto simp: new_node_def Let_def old_same_def)

lemma add_child_old:
  assumes "add_child r c st = Inr st'"
  shows "next_ref st' = next_ref st"
    and "lo \<le> r \<Longrightarrow> old_same lo st st'"
    and "r < lo \<Longrightarrow> lo \<le> c \<Longrightarrow> one_gained lo st st'"
    and "q \<noteq> r \<Longrightarrow> nodes st' q = nodes st q"
proof -
  from assms have st': "st' = st\<lparr>nodes := (nodes st)(r := (nodes st r)\<lparr>children := children (nodes st r) @ [c]\<rparr>)\<rparr>"
    by (auto simp: add_child_def split: if_splits)
  show "next_ref st' = next_ref st" by (simp add: st')
  show "old_same lo st st'" if "lo \<le> r" using that by (auto simp: st' old_same_def)
  show "one_gained lo st st'" if "r < lo" "lo \<le> c"
    unfolding one_gained_def using that by (intro exI [of _ r] exI [of _ c]) (simp add: st')
  show "nodes st' q = nodes st q" if "q \<noteq> r" using that by (simp add: st')
qed

lemma insert_loop_new:
  assumes "lo \<le> cur"
  shows "cur < next_ref st \<Longrightarrow> children (nodes st cur) = [] \<Longrightarrow>
         insert_loop cur parts st = (st', res) \<Longrightarrow>
         old_same lo st st' \<and> next_ref st \<le> next_ref st' \<and> (\<forall>c. res = Inr c \<longrightarrow> lo \<le> c)"
  using assms
proof (induction parts arbitrary: cur st)
  case Nil
  then show ?case by (auto simp: old_same_refl)
next
  case (Cons elem parts)
  show ?case
  proof (cases "elem = []")
    case True
    with Cons show ?thesis by simp
  next
    case ne: False
    from Cons.prems(2) have none: "child st cur elem = None"
      by (simp add: child_def)
    obtain st1 y where nn: "new_node PartialNode (Some cur) elem 0 st = (st1, y)"
      by (cases "new_node PartialNode (Some cur) elem 0 st")
    from Cons.prems(1,4) have lo: "lo \<le> next_ref st" by simp
    note o1 = new_node_old_same(1) [OF nn lo] and y = new_node_old_same(2) [OF nn lo]
      and n1 = new_node_old_same(3) [OF nn lo] and ch = new_node_old_same(4) [OF nn lo]
    show ?thesis
    proof (cases "add_child cur y st1")
      case (Inl x)
      with Cons.prems(3) ne none nn o1 y n1 show ?thesis by auto
    next
      case (Inr st2)
      from add_child_old(2) [OF Inr Cons.prems(4)] o1 have o2: "old_same lo st st2"
        by (blast intro: old_same_trans)
      from add_child_old(1) [OF Inr] n1 have n2: "next_ref st2 = Suc y" by simp
      from Cons.prems(1) y have "y \<noteq> cur" by simp
      from add_child_old(4) [OF Inr this] ch have ch2: "children (nodes st2 y) = []" by simp
      from Cons.prems(3) ne none nn Inr have il: "insert_loop y parts st2 = (st', res)" by simp
      from lo y have "lo \<le> y" by simp
      from Cons.IH [OF _ ch2 il this] n2
      have "old_same lo st2 st' \<and> next_ref st2 \<le> next_ref st' \<and> (\<forall>c. res = Inr c \<longrightarrow> lo \<le> c)"
        by simp
      with o2 n2 y show ?thesis by (auto intro: old_same_trans)
    qed
  qed
qed

lemma insert_loop_once:
  "cur < lo \<Longrightarrow> lo \<le> next_ref st \<Longrightarrow> old_closed lo st \<Longrightarrow>
   insert_loop cur parts st = (st', res) \<Longrightarrow>
   next_ref st \<le> next_ref st' \<and>
   ((old_same lo st st' \<and> (\<forall>c. res = Inr c \<longrightarrow> c < lo)) \<or>
    (one_gained lo st st' \<and> (\<forall>c. res = Inr c \<longrightarrow> lo \<le> c)))"
proof (induction parts arbitrary: cur)
  case Nil
  then show ?case by (auto simp: old_same_refl)
next
  case (Cons elem parts)
  show ?case
  proof (cases "elem = []")
    case True
    with Cons show ?thesis by simp
  next
    case ne: False
    show ?thesis
    proof (cases "child st cur elem")
      case (Some candidate)
      then have "candidate \<in> set (children (nodes st cur))"
        by (auto simp: child_def find_Some_iff split: if_splits)
      with Cons.prems(1,3) have "candidate < lo" by (simp add: old_closed_def)
      with Cons ne Some show ?thesis by simp
    next
      case None
      obtain st1 y where nn: "new_node PartialNode (Some cur) elem 0 st = (st1, y)"
        by (cases "new_node PartialNode (Some cur) elem 0 st")
      note o1 = new_node_old_same(1) [OF nn Cons.prems(2)] and y = new_node_old_same(2) [OF nn Cons.prems(2)]
        and n1 = new_node_old_same(3) [OF nn Cons.prems(2)] and ch = new_node_old_same(4) [OF nn Cons.prems(2)]
      show ?thesis
      proof (cases "add_child cur y st1")
        case (Inl x)
        with Cons.prems(4) ne None nn o1 y n1 show ?thesis by auto
      next
        case (Inr st2)
        from add_child_old(1) [OF Inr] n1 have n2: "next_ref st2 = Suc y" by simp
        from Cons.prems(2) y have loy: "lo \<le> y" by simp
        from add_child_old(3) [OF Inr Cons.prems(1) loy] o1 have step: "one_gained lo st st2"
          by (blast intro: old_same_one_gained)
        from Cons.prems(1) loy have "y \<noteq> cur" by simp
        from add_child_old(4) [OF Inr this] ch have ch2: "children (nodes st2 y) = []" by simp
        from Cons.prems(4) ne None nn Inr have il: "insert_loop y parts st2 = (st', res)" by simp
        from insert_loop_new [OF loy _ ch2 il] n2
        have "old_same lo st2 st' \<and> next_ref st2 \<le> next_ref st' \<and> (\<forall>c. res = Inr c \<longrightarrow> lo \<le> c)"
          by simp
        with step n2 y show ?thesis
          by (auto intro: one_gained_old_same)
      qed
    qed
  qed
qed

lemma insert_once:
  assumes "root st < lo" and "lo \<le> next_ref st" and "old_closed lo st" and "lo \<le> node"
    and "insert path node st = (st', res)"
  shows "old_same lo st st' \<or> one_gained lo st st'"
proof -
  obtain st1 r1 where il: "insert_loop (root st) (split_on CHR ''/'' path) st = (st1, r1)"
    by (cases "insert_loop (root st) (split_on CHR ''/'' path) st")
  note once = insert_loop_once [OF assms(1-3) il]
  show ?thesis
  proof (cases r1)
    case (Inl x)
    with assms(5) il once show ?thesis by (auto simp: insert_def)
  next
    case (Inr cur)
    show ?thesis
    proof (cases "add_child cur node st1")
      case (Inl x)
      with assms(5) il Inr once show ?thesis by (auto simp: insert_def)
    next
      case st2: (Inr st2)
      from assms(5) il Inr st2 have st': "st' = st2" by (simp add: insert_def)
      from once Inr consider (old) "old_same lo st st1" "cur < lo"
        | (new) "one_gained lo st st1" "lo \<le> cur" by auto
      then show ?thesis
      proof cases
        case old
        from add_child_old(3) [OF st2 old(2) assms(4)] old(1) show ?thesis
          by (auto simp: st' intro: old_same_one_gained)
      next
        case new
        from add_child_old(2) [OF st2 new(2)] new(1) show ?thesis
          by (auto simp: st' intro: one_gained_old_same)
      qed
    qed
  qed
qed

lemma clone_fresh_leaves:
  assumes "clone self clone_parent nm st = Some (st', c)"
  shows "fresh_leaves (next_val st) (next_ref st) st'"
proof -
  let ?st1 = "set_parent self None st"
  from assms obtain st2 ms2 where
    dc: "deepcopy (Suc (next_ref st)) self (?st1, Map.empty, Map.empty) = Some ((st2, ms2), c)"
    and st': "st' = (case nm of None \<Rightarrow> (\<lambda>s. s) | Some n \<Rightarrow> set_name c n)
             (set_parent self (parent (nodes st self)) (set_parent c clone_parent st2))"
    by (rule clone_result)
  have "fresh_vmemo (next_val st) Map.empty" by (simp add: fresh_vmemo_def)
  with deepcopy_inv [OF dc, of "next_val st"]
  have "fresh_leaves (next_val st) (next_ref st) st2"
    by (simp add: copy_inv_def set_parent_def)
  then show ?thesis
    by (cases nm) (auto simp: st' fresh_leaves_def set_parent_def set_name_def)
qed

lemma do_cp_Returned_cases2:
  assumes "do_cp src dst st = Some (st', Returned)"
  obtains (noop) "st' = st"
  | (into) s dest d st1 c st2 where "resolve st src (Some (cwd st)) = Inr (Some s)"
      "resolve st dest (Some (cwd st)) = Inr (Some d)"
      "clone s (Some d) None st = Some (st1, c)" "add_child d c st1 = Inr st2"
      "st' = st2\<lparr>dirty := True\<rparr>"
  | (fresh) s dest st1 c st2 d where "resolve st src (Some (cwd st)) = Inr (Some s)"
      "clone s None (Some (basename dest)) st = Some (st1, c)"
      "insert (dirname dest) c st1 = (st2, Inr d)"
      "st' = (set_parent c (Some d) st2)\<lparr>dirty := True\<rparr>"
  using assms
  by (auto simp: do_cp_def Let_def split: sum.splits option.splits if_splits prod.splits)

lemma resolve_abs_closed:
  assumes "closed st" and "resolve st path node = Inr (Some m)"
    and "case node of None \<Rightarrow> True | Some n \<Rightarrow> n < next_ref st"
  shows "m < next_ref st"
proof -
  from assms(1) have "root st < next_ref st"
    by (simp add: closed_def)
  with assms(2,3) resolve_loop_closed [OF assms(1)] show ?thesis
    by (auto simp: resolve_def Let_def split: if_splits option.splits)
qed

lemma cp_frame:
  assumes ext: "extends st st1" and fl: "fresh_leaves (next_val st) (next_ref st) st1"
    and att: "attaches (next_ref st) st1 st2"
    and st': "st' = st2\<lparr>dirty := True\<rparr> \<or>
              (\<exists>c d. next_ref st \<le> c \<and> st' = (set_parent c (Some d) st2)\<lparr>dirty := True\<rparr>)"
  shows "(\<forall>v. v < next_val st \<longrightarrow> vals st' v = vals st v) \<and>
     (\<forall>r. r < next_ref st \<longrightarrow>
        kind (nodes st' r) = kind (nodes st r) \<and> parent (nodes st' r) = parent (nodes st r) \<and>
        name (nodes st' r) = name (nodes st r) \<and> valref (nodes st' r) = valref (nodes st r) \<and>
        (\<exists>cs. children (nodes st' r) = children (nodes st r) @ cs \<and>
              (\<forall>c \<in> set cs. next_ref st \<le> c))) \<and>
     (\<forall>q. next_ref st \<le> q \<and> q < next_ref st' \<and> kind (nodes st' q) = ValueNode \<longrightarrow>
        next_val st \<le> valref (nodes st' q))"
proof -
  have kv: "kind (nodes st' q) = kind (nodes st2 q) \<and> valref (nodes st' q) = valref (nodes st2 q)"
    and nx: "next_ref st' = next_ref st2" and vs: "vals st' = vals st2" for q
    using st' by (auto simp: set_parent_def)
  have old: "nodes st' r = nodes st2 r" if "r < next_ref st" for r
    using st' that by (auto simp: set_parent_def)
  from ext have le1: "next_ref st \<le> next_ref st1" by (simp add: extends_def)
  have 1: "vals st' v = vals st v" if "v < next_val st" for v
    using that ext att vs by (simp add: extends_def attaches_def)
  have 2: "kind (nodes st' r) = kind (nodes st r) \<and> parent (nodes st' r) = parent (nodes st r) \<and>
        name (nodes st' r) = name (nodes st r) \<and> valref (nodes st' r) = valref (nodes st r) \<and>
        (\<exists>cs. children (nodes st' r) = children (nodes st r) @ cs \<and>
              (\<forall>c \<in> set cs. next_ref st \<le> c))" if r: "r < next_ref st" for r
  proof -
    from r le1 have "r < next_ref st1" by simp
    with att have "kind (nodes st2 r) = kind (nodes st1 r) \<and> parent (nodes st2 r) = parent (nodes st1 r) \<and>
         name (nodes st2 r) = name (nodes st1 r) \<and> valref (nodes st2 r) = valref (nodes st1 r) \<and>
         (\<exists>cs. children (nodes st2 r) = children (nodes st1 r) @ cs \<and> (\<forall>c \<in> set cs. next_ref st \<le> c))"
      unfolding attaches_def by blast
    moreover from ext r have "nodes st1 r = nodes st r" by (simp add: extends_def)
    ultimately show ?thesis by (simp add: old [OF r])
  qed
  have 3: "next_val st \<le> valref (nodes st' q)"
    if q: "next_ref st \<le> q \<and> q < next_ref st' \<and> kind (nodes st' q) = ValueNode" for q
  proof (cases "q < next_ref st1")
    case True
    with att have "kind (nodes st2 q) = kind (nodes st1 q) \<and> valref (nodes st2 q) = valref (nodes st1 q)"
      by (simp add: attaches_def)
    with q True fl kv [of q] show ?thesis by (simp add: fresh_leaves_def)
  next
    case False
    with att q nx have "kind (nodes st2 q) = PartialNode" by (simp add: attaches_def)
    with q kv [of q] show ?thesis by simp
  qed
  from 1 2 3 show ?thesis by blast
qed

lemma cp_frame_nodes:
  assumes "closed st" and "do_cp src dst st = Some (st', Returned)"
  shows "old_same (next_ref st) st st' \<or> one_gained (next_ref st) st st'"
  using assms(2)
proof (cases rule: do_cp_Returned_cases2)
  case noop
  then show ?thesis by (simp add: old_same_refl)
next
  case (into s dest d st1 c st2)
  from assms(1) have cw: "cwd st < next_ref st" by (simp add: closed_def)
  from resolve_abs_closed [OF assms(1) into(1)] cw have s: "s < next_ref st" by simp
  from resolve_abs_closed [OF assms(1) into(2)] cw have d: "d < next_ref st" by simp
  from clone_extends [OF into(3) s] have ext: "extends st st1" and c: "c = next_ref st"
    by simp_all
  from ext have o1: "old_same (next_ref st) st st1" by (simp add: extends_def old_same_def)
  from add_child_old(3) [OF into(4) d] c have "one_gained (next_ref st) st1 st2" by simp
  with o1 have "one_gained (next_ref st) st st2" by (rule old_same_one_gained)
  moreover have "old_same (next_ref st) st2 st'" by (simp add: into(5) old_same_def)
  ultimately show ?thesis by (blast intro: one_gained_old_same)
next
  case (fresh s dest st1 c st2 d)
  from assms(1) have cw: "cwd st < next_ref st" and rt: "root st < next_ref st"
    by (simp_all add: closed_def)
  from resolve_abs_closed [OF assms(1) fresh(1)] cw have s: "s < next_ref st" by simp
  from clone_extends [OF fresh(2) s] have ext: "extends st st1" and c: "c = next_ref st"
    by simp_all
  from ext have o1: "old_same (next_ref st) st st1" by (simp add: extends_def old_same_def)
  from ext rt have rt1: "root st1 < next_ref st" by (simp add: extends_def)
  from ext have le: "next_ref st \<le> next_ref st1" by (simp add: extends_def)
  have oc: "old_closed (next_ref st) st1"
    unfolding old_closed_def
  proof (intro allI impI ballI)
    fix r x
    assume r: "r < next_ref st" and x: "x \<in> set (children (nodes st1 r))"
    from ext r have "nodes st1 r = nodes st r" by (simp add: extends_def)
    with x assms(1) r show "x < next_ref st" by (auto simp: closed_def list_all_iff)
  qed
  from c have cl: "next_ref st \<le> c" by simp
  have o3: "old_same (next_ref st) st2 st'"
    using c by (simp add: fresh(4) old_same_def set_parent_def)
  from insert_once [OF rt1 le oc cl fresh(3)] o1 o3 show ?thesis
    by (blast intro: old_same_trans old_same_one_gained one_gained_old_same)
qed

lemma cp_values_fresh:
  assumes "closed st" and "do_cp src dst st = Some (st', Returned)"
  shows "(\<forall>v. v < next_val st \<longrightarrow> vals st' v = vals st v) \<and>
     (\<forall>r. r < next_ref st \<longrightarrow> valref (nodes st' r) = valref (nodes st r)) \<and>
     (\<forall>q. next_ref st \<le> q \<and> q < next_ref st' \<and> kind (nodes st' q) = ValueNode \<longrightarrow>
        next_val st \<le> valref (nodes st' q))"
  using assms(2)
proof (cases rule: do_cp_Returned_cases2)
  case noop
  then show ?thesis by auto
next
  case (into s dest d st1 c st2)
  from assms(1) have cw: "cwd st < next_ref st" by (simp add: closed_def)
  from resolve_abs_closed [OF assms(1) into(1)] cw have s: "s < next_ref st" by simp
  from clone_extends [OF into(3) s] have ext: "extends st st1" and c: "c = next_ref st"
    by simp_all
  from attaches_add_child [OF into(4), of "next_ref st"] c
  have "attaches (next_ref st) st1 st2" by simp
  from cp_frame [OF ext clone_fresh_leaves [OF into(3)] this] into(5) show ?thesis
    by blast
next
  case (fresh s dest st1 c st2 d)
  from assms(1) have cw: "cwd st < next_ref st" by (simp add: closed_def)
  from resolve_abs_closed [OF assms(1) fresh(1)] cw have s: "s < next_ref st" by simp
  from clone_extends [OF fresh(2) s] have ext: "extends st st1" and c: "c = next_ref st"
    by simp_all
  from ext have "next_ref st \<le> next_ref st1" by (simp add: extends_def)
  with insert_attaches [OF fresh(3), of "next_ref st"] c
  have "attaches (next_ref st) st1 st2" by simp
  from cp_frame [OF ext clone_fresh_leaves [OF fresh(2)] this] fresh(4) c show ?thesis
    by blast
qed

subsection \<open>The copy mirrors the original\<close>

text \<open>
  \<^verbatim>\<open>deepcopy\<close> keeps \<open>copying_inv\<close>, by induction on the depth of the copy; from it,
  \<^verbatim>\<open>clone\<close> returns with a \<open>copy_map\<close>, and what \<^verbatim>\<open>cp\<close> does afterwards (attaching
  the clone, creating missing groups on the way) changes no object of the copy but the
  clone's \<^verbatim>\<open>parent\<close>.
\<close>

lemma closedD:
  assumes "closed st" and "r < next_ref st"
  shows "parent (nodes st r) = Some p \<Longrightarrow> p < next_ref st"
    and "c \<in> set (children (nodes st r)) \<Longrightarrow> c < next_ref st"
    and "kind (nodes st r) = ValueNode \<Longrightarrow> valref (nodes st r) < next_val st"
proof -
  from assms(1) have "\<forall>r \<in> set [0..<next_ref st].
      (case parent (nodes st r) of None \<Rightarrow> True | Some p \<Rightarrow> p < next_ref st) \<and>
      (\<forall>c \<in> set (children (nodes st r)). c < next_ref st) \<and>
      (if kind (nodes st r) = ValueNode then valref (nodes st r) < next_val st else True)"
    unfolding closed_def list_all_iff by blast
  with assms(2) have a: "case parent (nodes st r) of None \<Rightarrow> True | Some p \<Rightarrow> p < next_ref st"
    and b: "\<forall>c \<in> set (children (nodes st r)). c < next_ref st"
    and c: "if kind (nodes st r) = ValueNode then valref (nodes st r) < next_val st else True"
    by simp_all
  from a show "parent (nodes st r) = Some p \<Longrightarrow> p < next_ref st" by simp
  from b show "c \<in> set (children (nodes st r)) \<Longrightarrow> c < next_ref st" by simp
  from c show "kind (nodes st r) = ValueNode \<Longrightarrow> valref (nodes st r) < next_val st" by simp
qed

lemma mirrors_mono:
  assumes "mirrors st0 st (memo, vmemo) r y" and "extends st st'" and "y < next_ref st"
    and "memo \<subseteq>\<^sub>m memo'" and "vmemo \<subseteq>\<^sub>m vmemo'"
  shows "mirrors st0 st' (memo', vmemo') r y"
proof -
  from assms(2,3) have n: "nodes st' y = nodes st y" by (simp add: extends_def)
  have m: "memo' c = Some c'" if "memo c = Some c'" for c c'
    using that assms(4) by (metis domI map_le_def)
  have v: "vmemo' c = Some c'" if "vmemo c = Some c'" for c c'
    using that assms(5) by (metis domI map_le_def)
  from assms(1) show ?thesis
    unfolding mirrors_def n
    by (auto intro: v elim!: list_all2_mono m)
qed

lemma copy_post_refl: "copying_inv st0 P s \<Longrightarrow> copy_post st0 P s s"
  by (simp add: copy_post_def)

lemma copy_post_trans:
  "copy_post st0 P a b \<Longrightarrow> copy_post st0 P b c \<Longrightarrow> copy_post st0 P a c"
  unfolding copy_post_def by (blast intro: map_le_trans)

lemma copy_value_post:
  assumes cv: "copy_value v (st, ms) = ((st1, ms1), v')"
    and inv: "copying_inv st0 P (st, ms)" and v: "v < next_val st0"
  shows "copy_post st0 P (st, ms) (st1, ms1) \<and> snd ms1 v = Some v' \<and> nodes st1 = nodes st \<and>
         next_ref st1 = next_ref st"
proof -
  obtain memo vmemo where ms: "ms = (memo, vmemo)" by (cases ms)
  show ?thesis
  proof (cases "vmemo v")
    case (Some w)
    with cv ms have "st1 = st" "ms1 = ms" "v' = w" by (simp_all add: copy_value_def)
    with inv Some ms show ?thesis by (simp add: copy_post_refl)
  next
    case None
    with cv ms have st1: "st1 = st\<lparr>vals := (vals st)(next_val st := vals st v), next_val := Suc (next_val st)\<rparr>"
      and ms1: "ms1 = (memo, vmemo(v \<mapsto> v'))" and v': "v' = next_val st"
      by (auto simp: copy_value_def new_value_def Let_def)
    from inv have e: "extends st0 st"
      and i2: "\<forall>r y. memo r = Some y \<longrightarrow> r < next_ref st0 \<and> next_ref st0 \<le> y \<and> y < next_ref st"
      and i3: "\<forall>r r' y. memo r = Some y \<and> memo r' = Some y \<longrightarrow> r = r'"
      and i4: "\<forall>r y. memo r = Some y \<and> r \<notin> P \<longrightarrow> mirrors st0 st (memo, vmemo) r y"
      and i5: "\<forall>w w'. vmemo w = Some w' \<longrightarrow>
                 next_val st0 \<le> w' \<and> w' < next_val st \<and> vals st w' = vals st0 w"
      by (simp_all add: copying_inv_def ms)
    have e1: "extends st st1" by (auto simp: st1 extends_def)
    from e e1 have e01: "extends st0 st1" by (rule extends_trans)
    have le: "vmemo \<subseteq>\<^sub>m vmemo(v \<mapsto> v')" using None by (auto simp: map_le_def)
    have j4: "mirrors st0 st1 (memo, vmemo(v \<mapsto> v')) r y" if "memo r = Some y \<and> r \<notin> P" for r y
    proof -
      from that i4 have a: "mirrors st0 st (memo, vmemo) r y" by blast
      from that i2 have b: "y < next_ref st" by blast
      show ?thesis by (rule mirrors_mono [OF a e1 b map_le_refl le])
    qed
    from e v have vv: "vals st v = vals st0 v" "next_val st0 \<le> next_val st"
      by (simp_all add: extends_def)
    have j5: "next_val st0 \<le> w' \<and> w' < next_val st1 \<and> vals st1 w' = vals st0 w"
      if "(vmemo(v \<mapsto> v')) w = Some w'" for w w'
    proof (cases "w = v")
      case True
      with that have "w' = v'" by simp
      with True vv show ?thesis by (simp add: st1 v')
    next
      case False
      with that i5 have "next_val st0 \<le> w' \<and> w' < next_val st \<and> vals st w' = vals st0 w" by simp
      then show ?thesis by (simp add: st1)
    qed
    have "copying_inv st0 P (st1, ms1)"
      unfolding copying_inv_def
      using e01 i2 i3 j4 j5 by (simp add: ms1) (simp add: st1)
    with le show ?thesis by (simp add: copy_post_def ms ms1 st1)
  qed
qed

lemma map_le_Some: "m \<subseteq>\<^sub>m m' \<Longrightarrow> m a = Some b \<Longrightarrow> m' a = Some b"
  by (metis domI map_le_def)

lemma deepcopy_list_post:
  assumes node: "\<And>r (s :: 'v state \<times> copying) s' y.
            deepcopy fuel r s = Some (s', y) \<Longrightarrow> copying_inv st0 P s \<Longrightarrow> r < next_ref st0 \<Longrightarrow>
            copy_post st0 P s s' \<and> fst (snd s') r = Some y"
    and "deepcopy_list fuel cs (s :: 'v state \<times> copying) = Some (s', ys)"
    and "copying_inv st0 P s" and "\<forall>c \<in> set cs. c < next_ref st0"
  shows "copy_post st0 P s s' \<and> list_all2 (\<lambda>c c'. fst (snd s') c = Some c') cs ys"
  using assms(2-)
proof (induction cs arbitrary: s ys)
  case Nil
  then show ?case by (simp add: copy_post_refl)
next
  case (Cons c cs)
  from Cons.prems(1) obtain s1 c' ys' where c: "deepcopy fuel c s = Some (s1, c')"
    and cs: "deepcopy_list fuel cs s1 = Some (s', ys')" and ys: "ys = c' # ys'"
    by (auto split: option.splits)
  from Cons.prems(3) have lt: "c < next_ref st0" "\<forall>c \<in> set cs. c < next_ref st0" by simp_all
  from node [OF c Cons.prems(2) lt(1)] have p1: "copy_post st0 P s s1" and m1: "fst (snd s1) c = Some c'"
    by simp_all
  from p1 have i1: "copying_inv st0 P s1" by (simp add: copy_post_def)
  from Cons.IH [OF cs i1 lt(2)] have p2: "copy_post st0 P s1 s'"
    and l2: "list_all2 (\<lambda>c c'. fst (snd s') c = Some c') cs ys'" by simp_all
  from p2 have "fst (snd s1) \<subseteq>\<^sub>m fst (snd s')" by (simp add: copy_post_def)
  from map_le_Some [OF this m1] have "fst (snd s') c = Some c'" .
  with l2 copy_post_trans [OF p1 p2] show ?case by (simp add: ys)
qed

lemma copying_inv_new_object:
  assumes inv: "copying_inv st0 P (st, memo, vmemo)" and none: "memo r = None"
    and no: "new_object k st = (st1, y)" and r: "r < next_ref st0"
  shows "copying_inv st0 (Set.insert r P) (st1, memo(r \<mapsto> y), vmemo)"
proof -
  from inv have e: "extends st0 st"
    and i2: "\<forall>r y. memo r = Some y \<longrightarrow> r < next_ref st0 \<and> next_ref st0 \<le> y \<and> y < next_ref st"
    and i3: "\<forall>r r' y. memo r = Some y \<and> memo r' = Some y \<longrightarrow> r = r'"
    and i4: "\<forall>r y. memo r = Some y \<and> r \<notin> P \<longrightarrow> mirrors st0 st (memo, vmemo) r y"
    and i5: "\<forall>w w'. vmemo w = Some w' \<longrightarrow>
               next_val st0 \<le> w' \<and> w' < next_val st \<and> vals st w' = vals st0 w"
    by (simp_all add: copying_inv_def)
  from extends_new_object [OF no] have e1: "extends st st1" and y: "y = next_ref st"
    and n1: "next_ref st1 = Suc y" by simp_all
  from no have v1: "vals st1 = vals st" "next_val st1 = next_val st"
    by (auto simp: new_object_def Let_def)
  from e e1 have e01: "extends st0 st1" by (rule extends_trans)
  from e have le0: "next_ref st0 \<le> y" by (simp add: y extends_def)
  have le: "memo \<subseteq>\<^sub>m memo(r \<mapsto> y)" using none by (auto simp: map_le_def)
  have j2: "a < next_ref st0 \<and> next_ref st0 \<le> b \<and> b < next_ref st1"
    if "(memo(r \<mapsto> y)) a = Some b" for a b
  proof (cases "a = r")
    case True
    with that r le0 show ?thesis by (simp add: n1)
  next
    case False
    with that i2 have "a < next_ref st0 \<and> next_ref st0 \<le> b \<and> b < next_ref st" by simp
    then show ?thesis by (simp add: n1 y)
  qed
  have j3: "a = a'" if "(memo(r \<mapsto> y)) a = Some b \<and> (memo(r \<mapsto> y)) a' = Some b" for a a' b
  proof -
    have ny: "memo x \<noteq> Some y" for x using i2 y by fastforce
    show ?thesis
    proof (cases "b = y")
      case True
      with that ny show ?thesis by (auto split: if_splits)
    next
      case False
      with that i3 show ?thesis by (auto split: if_splits)
    qed
  qed
  have j4: "mirrors st0 st1 (memo(r \<mapsto> y), vmemo) a b"
    if "(memo(r \<mapsto> y)) a = Some b \<and> a \<notin> Set.insert r P" for a b
  proof -
    from that have ab: "memo a = Some b" "a \<notin> P" by (auto split: if_splits)
    with i4 have m: "mirrors st0 st (memo, vmemo) a b" by blast
    from ab i2 have b: "b < next_ref st" by blast
    show ?thesis by (rule mirrors_mono [OF m e1 b le map_le_refl])
  qed
  have c2: "\<forall>a b. (memo(r \<mapsto> y)) a = Some b \<longrightarrow>
      a < next_ref st0 \<and> next_ref st0 \<le> b \<and> b < next_ref st1"
    using j2 by blast
  have c3: "\<forall>a a' b. (memo(r \<mapsto> y)) a = Some b \<and> (memo(r \<mapsto> y)) a' = Some b \<longrightarrow> a = a'"
    using j3 by blast
  have c4: "\<forall>a b. (memo(r \<mapsto> y)) a = Some b \<and> a \<notin> Set.insert r P \<longrightarrow>
      mirrors st0 st1 (memo(r \<mapsto> y), vmemo) a b"
    using j4 by blast
  have c5: "\<forall>w w'. vmemo w = Some w' \<longrightarrow>
      next_val st0 \<le> w' \<and> w' < next_val st1 \<and> vals st1 w' = vals st0 w"
    using i5 by (simp add: v1)
  show ?thesis
    unfolding copying_inv_def fst_conv snd_conv
    by (intro conjI e01 c2 c3 c4 c5)
qed

lemma copying_inv_finish:
  assumes inv: "copying_inv st0 (Set.insert r P) (st3, ms')"
    and my: "fst ms' r = Some y"
    and at: "kind attrs = kind (nodes st0 r)" "name attrs = name (nodes st0 r)"
      "if kind (nodes st0 r) = ValueNode
       then snd ms' (valref (nodes st0 r)) = Some (valref attrs)
       else list_all2 (\<lambda>c c'. fst ms' c = Some c') (children (nodes st0 r)) (children attrs)"
  shows "copying_inv st0 P (set_attrs y attrs st3, ms')"
proof -
  obtain memo vmemo where ms: "ms' = (memo, vmemo)" by (cases ms')
  from inv have e: "extends st0 st3"
    and i2: "\<forall>r y. memo r = Some y \<longrightarrow> r < next_ref st0 \<and> next_ref st0 \<le> y \<and> y < next_ref st3"
    and i3: "\<forall>r r' y. memo r = Some y \<and> memo r' = Some y \<longrightarrow> r = r'"
    and i4: "\<forall>a b. memo a = Some b \<and> a \<notin> Set.insert r P \<longrightarrow> mirrors st0 st3 (memo, vmemo) a b"
    and i5: "\<forall>w w'. vmemo w = Some w' \<longrightarrow>
               next_val st0 \<le> w' \<and> w' < next_val st3 \<and> vals st3 w' = vals st0 w"
    by (simp_all add: copying_inv_def ms)
  from my ms have my': "memo r = Some y" by simp
  with i2 have ly: "next_ref st0 \<le> y" by blast
  let ?st = "set_attrs y attrs st3"
  from e ly have c1: "extends st0 ?st" by (rule extends_set_attrs)
  have c2: "\<forall>a b. memo a = Some b \<longrightarrow> a < next_ref st0 \<and> next_ref st0 \<le> b \<and> b < next_ref ?st"
    using i2 by simp
  have j4: "mirrors st0 ?st (memo, vmemo) a b" if ab: "memo a = Some b \<and> a \<notin> P" for a b
  proof (cases "a = r")
    case True
    with ab my' have "b = y" by simp
    with True at(1,2) at(3) [unfolded ms fst_conv snd_conv] show ?thesis
      by (simp add: mirrors_def set_attrs_def)
  next
    case False
    with ab i4 have m: "mirrors st0 st3 (memo, vmemo) a b" by simp
    from False ab my' i3 have "b \<noteq> y" by blast
    then have n: "nodes ?st b = nodes st3 b" by (simp add: set_attrs_def)
    from m show ?thesis unfolding mirrors_def n .
  qed
  then have c4: "\<forall>a b. memo a = Some b \<and> a \<notin> P \<longrightarrow> mirrors st0 ?st (memo, vmemo) a b"
    by blast
  have c5: "\<forall>w w'. vmemo w = Some w' \<longrightarrow>
      next_val st0 \<le> w' \<and> w' < next_val ?st \<and> vals ?st w' = vals st0 w"
    using i5 by (simp add: set_attrs_def)
  show ?thesis
    unfolding copying_inv_def ms fst_conv snd_conv
    by (intro conjI c1 c2 i3 c4 c5)
qed

lemma deepcopy_post:
  assumes cl: "closed st0"
  shows "deepcopy fuel r s = Some (s', y) \<Longrightarrow> copying_inv st0 P s \<Longrightarrow> r < next_ref st0 \<Longrightarrow>
         copy_post st0 P s s' \<and> fst (snd s') r = Some y"
proof (induction fuel arbitrary: r s s' y P)
  case 0
  then show ?case by simp
next
  case (Suc fuel)
  obtain st memo vmemo where s: "s = (st, memo, vmemo)" by (cases s)
  obtain st' ms' where s': "s' = (st', ms')" by (cases s')
  from Suc.prems(1) s s' have d: "deepcopy (Suc fuel) r (st, memo, vmemo) = Some ((st', ms'), y)"
    by simp
  note inv = Suc.prems(2) [unfolded s] and r = Suc.prems(3)
  from inv have e: "extends st0 st" by (simp add: copying_inv_def)
  with r have x: "nodes st r = nodes st0 r" by (simp add: extends_def)
  from d show ?case
  proof (cases rule: deepcopy_Suc_cases)
    case hit
    with inv show ?thesis by (simp add: s s' copy_post_refl)
  next
    case (copied st1 st2 ms2 p' st3 attrs)
    let ?P = "Set.insert r P"
    note i1 = copying_inv_new_object [OF inv copied(1,2) r]
    have le1: "memo \<subseteq>\<^sub>m memo(r \<mapsto> y)" using copied(1) by (auto simp: map_le_def)
    have par: "copy_post st0 ?P (st1, memo(r \<mapsto> y), vmemo) (st2, ms2)"
    proof (cases "parent (nodes st r)")
      case None
      with copied(3) i1 show ?thesis by (simp add: copy_post_refl)
    next
      case (Some p)
      with copied(3) obtain q where
        dp: "deepcopy fuel p (st1, memo(r \<mapsto> y), vmemo) = Some ((st2, ms2), q)" by auto
      from Some x have "parent (nodes st0 r) = Some p" by simp
      from closedD(1) [OF cl r this] have "p < next_ref st0" .
      from Suc.IH [OF dp i1 this] show ?thesis by simp
    qed
    then have i2: "copying_inv st0 ?P (st2, ms2)" by (simp add: copy_post_def)
    have rest: "copy_post st0 ?P (st2, ms2) (st3, ms') \<and>
        kind attrs = kind (nodes st0 r) \<and> name attrs = name (nodes st0 r) \<and>
        (if kind (nodes st0 r) = ValueNode
         then snd ms' (valref (nodes st0 r)) = Some (valref attrs)
         else list_all2 (\<lambda>c c'. fst ms' c = Some c') (children (nodes st0 r)) (children attrs))"
    proof (cases "kind (nodes st r) = ValueNode")
      case True
      with copied(4) obtain v' where
        cv: "copy_value (valref (nodes st r)) (st2, ms2) = ((st3, ms'), v')"
        and at: "attrs = \<lparr>kind = ValueNode, parent = p', name = name (nodes st r), children = [],
                   valref = v'\<rparr>"
        by auto
      from True x have "kind (nodes st0 r) = ValueNode" by simp
      from closedD(3) [OF cl r this] x have "valref (nodes st r) < next_val st0" by simp
      from copy_value_post [OF cv i2 this] True at x show ?thesis by simp
    next
      case False
      with copied(4) obtain cs' where
        dl: "deepcopy_list fuel (children (nodes st r)) (st2, ms2) = Some ((st3, ms'), cs')"
        and at: "attrs = \<lparr>kind = kind (nodes st r), parent = p', name = name (nodes st r),
                   children = cs', valref = valref (nodes st r)\<rparr>"
        by auto
      have "\<forall>c \<in> set (children (nodes st r)). c < next_ref st0"
        using closedD(2) [OF cl r] x by simp
      from deepcopy_list_post [OF Suc.IH dl i2 this] False at x show ?thesis by simp
    qed
    from rest have p3: "copy_post st0 ?P (st2, ms2) (st3, ms')" by simp
    from copy_post_trans [OF par p3] have p13: "copy_post st0 ?P (st1, memo(r \<mapsto> y), vmemo) (st3, ms')" .
    then have i3: "copying_inv st0 ?P (st3, ms')"
      and m13: "memo(r \<mapsto> y) \<subseteq>\<^sub>m fst ms'" and v13: "vmemo \<subseteq>\<^sub>m snd ms'"
      by (simp_all add: copy_post_def)
    from map_le_Some [OF m13, of r y] have my: "fst ms' r = Some y" by simp
    from rest have at: "kind attrs = kind (nodes st0 r)" "name attrs = name (nodes st0 r)"
      "if kind (nodes st0 r) = ValueNode
       then snd ms' (valref (nodes st0 r)) = Some (valref attrs)
       else list_all2 (\<lambda>c c'. fst ms' c = Some c') (children (nodes st0 r)) (children attrs)"
      by simp_all
    from copying_inv_finish [OF i3 my at] have "copying_inv st0 P (st', ms')"
      by (simp add: copied(5))
    moreover from le1 m13 have "memo \<subseteq>\<^sub>m fst ms'" by (rule map_le_trans)
    ultimately show ?thesis using v13 my by (simp add: copy_post_def s s')
  qed
qed

lemma closed_set_parent_None:
  assumes "closed st"
  shows "closed (set_parent x None st)"
proof -
  let ?st = "set_parent x None st"
  from assms have a: "root st < next_ref st" "cwd st < next_ref st"
    by (simp_all add: closed_def)
  from assms have b: "\<forall>r \<in> set [0..<next_ref st].
      (case parent (nodes st r) of None \<Rightarrow> True | Some p \<Rightarrow> p < next_ref st) \<and>
      (\<forall>c \<in> set (children (nodes st r)). c < next_ref st) \<and>
      (if kind (nodes st r) = ValueNode then valref (nodes st r) < next_val st else True)"
    unfolding closed_def list_all_iff by blast
  have c: "\<forall>r \<in> set [0..<next_ref st].
      (case parent (nodes ?st r) of None \<Rightarrow> True | Some p \<Rightarrow> p < next_ref st) \<and>
      (\<forall>c \<in> set (children (nodes ?st r)). c < next_ref st) \<and>
      (if kind (nodes ?st r) = ValueNode then valref (nodes ?st r) < next_val st else True)"
  proof
    fix r assume "r \<in> set [0..<next_ref st]"
    with b have "(case parent (nodes st r) of None \<Rightarrow> True | Some p \<Rightarrow> p < next_ref st) \<and>
      (\<forall>c \<in> set (children (nodes st r)). c < next_ref st) \<and>
      (if kind (nodes st r) = ValueNode then valref (nodes st r) < next_val st else True)"
      by (rule bspec)
    then show "(case parent (nodes ?st r) of None \<Rightarrow> True | Some p \<Rightarrow> p < next_ref st) \<and>
      (\<forall>c \<in> set (children (nodes ?st r)). c < next_ref st) \<and>
      (if kind (nodes ?st r) = ValueNode then valref (nodes ?st r) < next_val st else True)"
      by (cases "r = x") (auto simp: set_parent_def split: if_splits)
  qed
  have n: "next_ref ?st = next_ref st" "next_val ?st = next_val st" "root ?st = root st"
    "cwd ?st = cwd st"
    by (simp_all add: set_parent_def)
  show ?thesis
    unfolding closed_def list_all_iff n
    by (intro conjI a c)
qed

lemma copying_inv_start: "copying_inv st0 {} (st0, Map.empty, Map.empty)"
  by (simp add: copying_inv_def extends_refl)

lemma clone_copy_map:
  assumes cl: "closed st" and c: "clone self cp nm st = Some (st1, c)" and self: "self < next_ref st"
  shows "\<exists>m. copy_map st st1 self c m"
proof -
  let ?st0 = "set_parent self None st"
  from c obtain st2 ms2 where
    dc: "deepcopy (Suc (next_ref st)) self (?st0, Map.empty, Map.empty) = Some ((st2, ms2), c)"
    and st1: "st1 = (case nm of None \<Rightarrow> (\<lambda>s. s) | Some n \<Rightarrow> set_name c n)
             (set_parent self (parent (nodes st self)) (set_parent c cp st2))"
    by (rule clone_result)
  have n0: "next_ref ?st0 = next_ref st" "next_val ?st0 = next_val st" "vals ?st0 = vals st"
    by (simp_all add: set_parent_def)
  have k0: "kind (nodes ?st0 r) = kind (nodes st r)" "name (nodes ?st0 r) = name (nodes st r)"
    "children (nodes ?st0 r) = children (nodes st r)" "valref (nodes ?st0 r) = valref (nodes st r)" for r
    by (simp_all add: set_parent_def)
  from self have self0: "self < next_ref ?st0" by (simp add: n0)
  from deepcopy_post [OF closed_set_parent_None [OF cl] dc copying_inv_start self0]
  have inv: "copying_inv ?st0 {} (st2, ms2)" and mc: "fst ms2 self = Some c"
    by (simp_all add: copy_post_def)
  obtain memo vmemo where ms2: "ms2 = (memo, vmemo)" by (cases ms2)
  from inv have
    i2: "\<forall>r y. memo r = Some y \<longrightarrow> r < next_ref st \<and> next_ref st \<le> y \<and> y < next_ref st2"
    and i3: "\<forall>r r' y. memo r = Some y \<and> memo r' = Some y \<longrightarrow> r = r'"
    and i4: "\<forall>r y. memo r = Some y \<longrightarrow> mirrors ?st0 st2 (memo, vmemo) r y"
    and i5: "\<forall>w w'. vmemo w = Some w' \<longrightarrow>
               next_val st \<le> w' \<and> w' < next_val st2 \<and> vals st2 w' = vals st w"
    by (simp_all add: copying_inv_def ms2 n0)
  from mc ms2 have mc': "memo self = Some c" by simp
  have f1: "next_ref st1 = next_ref st2" "vals st1 = vals st2"
    by (cases nm, simp_all add: st1 set_parent_def set_name_def)+
  have f2: "kind (nodes st1 y) = kind (nodes st2 y) \<and> children (nodes st1 y) = children (nodes st2 y) \<and>
        valref (nodes st1 y) = valref (nodes st2 y) \<and>
        (y \<noteq> c \<longrightarrow> name (nodes st1 y) = name (nodes st2 y))" for y
    by (cases nm) (simp_all add: st1 set_parent_def set_name_def)
  have body: "r < next_ref st \<and> next_ref st \<le> y \<and> y < next_ref st1 \<and>
         kind (nodes st1 y) = kind (nodes st r) \<and>
         (r \<noteq> self \<longrightarrow> name (nodes st1 y) = name (nodes st r)) \<and>
         (if kind (nodes st r) = ValueNode
          then next_val st \<le> valref (nodes st1 y) \<and>
               vals st1 (valref (nodes st1 y)) = vals st (valref (nodes st r))
          else list_all2 (\<lambda>ch ch'. memo ch = Some ch')
                 (children (nodes st r)) (children (nodes st1 y)))"
    if my: "memo r = Some y" for r y
  proof -
    from my i2 have b: "r < next_ref st" "next_ref st \<le> y" "y < next_ref st1"
      by (simp_all add: f1)
    from my i4 have "mirrors ?st0 st2 (memo, vmemo) r y" by blast
    then have m: "kind (nodes st2 y) = kind (nodes st r)" "name (nodes st2 y) = name (nodes st r)"
      "if kind (nodes st r) = ValueNode
       then vmemo (valref (nodes st r)) = Some (valref (nodes st2 y))
       else list_all2 (\<lambda>c c'. memo c = Some c') (children (nodes st r)) (children (nodes st2 y))"
      unfolding mirrors_def k0 fst_conv snd_conv by simp_all
    have nm: "r \<noteq> self \<longrightarrow> name (nodes st1 y) = name (nodes st r)"
    proof
      assume "r \<noteq> self"
      with my mc' i3 have "y \<noteq> c" by blast
      with f2 [of y] m(2) show "name (nodes st1 y) = name (nodes st r)" by simp
    qed
    have rest: "if kind (nodes st r) = ValueNode
          then next_val st \<le> valref (nodes st1 y) \<and>
               vals st1 (valref (nodes st1 y)) = vals st (valref (nodes st r))
          else list_all2 (\<lambda>ch ch'. memo ch = Some ch')
                 (children (nodes st r)) (children (nodes st1 y))"
    proof (cases "kind (nodes st r) = ValueNode")
      case True
      with m(3) have "vmemo (valref (nodes st r)) = Some (valref (nodes st2 y))" by simp
      with i5 have "next_val st \<le> valref (nodes st2 y) \<and>
          vals st2 (valref (nodes st2 y)) = vals st (valref (nodes st r))" by blast
      with True f2 [of y] f1 show ?thesis by simp
    next
      case False
      with m(3) f2 [of y] show ?thesis by simp
    qed
    from b m(1) f2 [of y] nm rest show ?thesis by simp
  qed
  have "\<forall>r y. memo r = Some y \<longrightarrow>
         r < next_ref st \<and> next_ref st \<le> y \<and> y < next_ref st1 \<and>
         kind (nodes st1 y) = kind (nodes st r) \<and>
         (r \<noteq> self \<longrightarrow> name (nodes st1 y) = name (nodes st r)) \<and>
         (if kind (nodes st r) = ValueNode
          then next_val st \<le> valref (nodes st1 y) \<and>
               vals st1 (valref (nodes st1 y)) = vals st (valref (nodes st r))
          else list_all2 (\<lambda>ch ch'. memo ch = Some ch')
                 (children (nodes st r)) (children (nodes st1 y)))"
  proof (intro allI impI)
    fix r y assume "memo r = Some y"
    then show "r < next_ref st \<and> next_ref st \<le> y \<and> y < next_ref st1 \<and>
         kind (nodes st1 y) = kind (nodes st r) \<and>
         (r \<noteq> self \<longrightarrow> name (nodes st1 y) = name (nodes st r)) \<and>
         (if kind (nodes st r) = ValueNode
          then next_val st \<le> valref (nodes st1 y) \<and>
               vals st1 (valref (nodes st1 y)) = vals st (valref (nodes st r))
          else list_all2 (\<lambda>ch ch'. memo ch = Some ch')
                 (children (nodes st r)) (children (nodes st1 y)))"
      by (rule body)
  qed
  with mc' have "copy_map st st1 self c memo"
    unfolding copy_map_def by (rule conjI)
  then show ?thesis by (intro exI [of _ memo])
qed

lemma insert_loop_band:
  "cur < lo \<Longrightarrow> lo \<le> hi \<Longrightarrow> hi \<le> next_ref st \<Longrightarrow> old_closed lo st \<Longrightarrow>
   insert_loop cur parts st = (st', res) \<Longrightarrow>
   (\<forall>q. lo \<le> q \<and> q < hi \<longrightarrow> nodes st' q = nodes st q) \<and>
   (\<forall>c. res = Inr c \<longrightarrow> c < lo \<or> hi \<le> c)"
proof (induction parts arbitrary: cur)
  case Nil
  then show ?case by auto
next
  case (Cons elem parts)
  show ?case
  proof (cases "elem = []")
    case True
    with Cons show ?thesis by simp
  next
    case ne: False
    show ?thesis
    proof (cases "child st cur elem")
      case (Some candidate)
      then have "candidate \<in> set (children (nodes st cur))"
        by (auto simp: child_def find_Some_iff split: if_splits)
      with Cons.prems(1,4) have "candidate < lo" by (simp add: old_closed_def)
      with Cons ne Some show ?thesis by simp
    next
      case None
      obtain st1 y where nn: "new_node PartialNode (Some cur) elem 0 st = (st1, y)"
        by (cases "new_node PartialNode (Some cur) elem 0 st")
      note o1 = new_node_old_same(1) [OF nn Cons.prems(3)] and y = new_node_old_same(2) [OF nn Cons.prems(3)]
        and n1 = new_node_old_same(3) [OF nn Cons.prems(3)] and ch = new_node_old_same(4) [OF nn Cons.prems(3)]
      show ?thesis
      proof (cases "add_child cur y st1")
        case (Inl x)
        with Cons.prems(5) ne None nn have "st' = st1" "res = Inl x" by simp_all
        with o1 show ?thesis by (simp add: old_same_def)
      next
        case (Inr st2)
        from add_child_old(1) [OF Inr] n1 have n2: "next_ref st2 = Suc y" by simp
        from Cons.prems(3) y have hy: "hi \<le> y" by simp
        from Cons.prems(1,2) hy have "y \<noteq> cur" by simp
        from add_child_old(4) [OF Inr this] ch have ch2: "children (nodes st2 y) = []" by simp
        from Cons.prems(5) ne None nn Inr have il: "insert_loop y parts st2 = (st', res)" by simp
        from insert_loop_new [OF hy _ ch2 il] n2
        have o3: "old_same hi st2 st'" and r3: "\<forall>c. res = Inr c \<longrightarrow> hi \<le> c"
          by simp_all
        have "nodes st' q = nodes st q" if q: "lo \<le> q \<and> q < hi" for q
        proof -
          from q o3 have "nodes st' q = nodes st2 q" by (simp add: old_same_def)
          moreover from q Cons.prems(1) have "q \<noteq> cur" by simp
          from add_child_old(4) [OF Inr this] have "nodes st2 q = nodes st1 q" .
          moreover from q o1 have "nodes st1 q = nodes st q" by (simp add: old_same_def)
          ultimately show ?thesis by simp
        qed
        with r3 show ?thesis by blast
      qed
    qed
  qed
qed

lemma insert_band:
  assumes "root st < lo" and "lo \<le> hi" and "hi \<le> next_ref st" and "old_closed lo st"
    and "insert path node st = (st', Inr d)"
  shows "(\<forall>q. lo \<le> q \<and> q < hi \<longrightarrow> nodes st' q = nodes st q) \<and>
         node \<in> set (children (nodes st' d)) \<and> (d < lo \<or> hi \<le> d)"
proof -
  obtain st1 r1 where il: "insert_loop (root st) (split_on CHR ''/'' path) st = (st1, r1)"
    by (cases "insert_loop (root st) (split_on CHR ''/'' path) st")
  from assms(5) il obtain cur where r1: "r1 = Inr cur"
    by (cases r1) (auto simp: insert_def)
  from assms(5) il r1 have ac: "add_child cur node st1 = Inr st'" and d: "d = cur"
    by (auto simp: insert_def split: sum.splits)
  from insert_loop_band [OF assms(1-4) il] r1
  have band: "\<forall>q. lo \<le> q \<and> q < hi \<longrightarrow> nodes st1 q = nodes st q" and cur: "cur < lo \<or> hi \<le> cur"
    by simp_all
  from ac have st': "st' = st1\<lparr>nodes := (nodes st1)(cur := (nodes st1 cur)\<lparr>children := children (nodes st1 cur) @ [node]\<rparr>)\<rparr>"
    by (auto simp: add_child_def split: if_splits)
  have "nodes st' q = nodes st q" if q: "lo \<le> q \<and> q < hi" for q
  proof -
    from q cur assms(2) have "q \<noteq> cur" by auto
    then have "nodes st' q = nodes st1 q" by (simp add: st')
    with band q show ?thesis by simp
  qed
  moreover have "node \<in> set (children (nodes st' d))" by (simp add: st' d)
  ultimately show ?thesis using cur d by simp
qed

lemma copy_map_frame:
  assumes cm: "copy_map st st1 s c m"
    and band: "\<forall>q. next_ref st \<le> q \<and> q < next_ref st1 \<longrightarrow>
        kind (nodes st' q) = kind (nodes st1 q) \<and> name (nodes st' q) = name (nodes st1 q) \<and>
        children (nodes st' q) = children (nodes st1 q) \<and> valref (nodes st' q) = valref (nodes st1 q)"
    and nx: "next_ref st1 \<le> next_ref st'" and vs: "vals st' = vals st1"
  shows "copy_map st st' s c m"
proof -
  from cm have ms: "m s = Some c"
    and all: "\<forall>r y. m r = Some y \<longrightarrow>
         r < next_ref st \<and> next_ref st \<le> y \<and> y < next_ref st1 \<and>
         kind (nodes st1 y) = kind (nodes st r) \<and>
         (r \<noteq> s \<longrightarrow> name (nodes st1 y) = name (nodes st r)) \<and>
         (if kind (nodes st r) = ValueNode
          then next_val st \<le> valref (nodes st1 y) \<and>
               vals st1 (valref (nodes st1 y)) = vals st (valref (nodes st r))
          else list_all2 (\<lambda>ch ch'. m ch = Some ch')
                 (children (nodes st r)) (children (nodes st1 y)))"
    by (simp_all add: copy_map_def)
  have "\<forall>r y. m r = Some y \<longrightarrow>
         r < next_ref st \<and> next_ref st \<le> y \<and> y < next_ref st' \<and>
         kind (nodes st' y) = kind (nodes st r) \<and>
         (r \<noteq> s \<longrightarrow> name (nodes st' y) = name (nodes st r)) \<and>
         (if kind (nodes st r) = ValueNode
          then next_val st \<le> valref (nodes st' y) \<and>
               vals st' (valref (nodes st' y)) = vals st (valref (nodes st r))
          else list_all2 (\<lambda>ch ch'. m ch = Some ch')
                 (children (nodes st r)) (children (nodes st' y)))"
  proof (intro allI impI)
    fix r y assume my: "m r = Some y"
    with all have a: "r < next_ref st \<and> next_ref st \<le> y \<and> y < next_ref st1 \<and>
         kind (nodes st1 y) = kind (nodes st r) \<and>
         (r \<noteq> s \<longrightarrow> name (nodes st1 y) = name (nodes st r)) \<and>
         (if kind (nodes st r) = ValueNode
          then next_val st \<le> valref (nodes st1 y) \<and>
               vals st1 (valref (nodes st1 y)) = vals st (valref (nodes st r))
          else list_all2 (\<lambda>ch ch'. m ch = Some ch')
                 (children (nodes st r)) (children (nodes st1 y)))"
      by blast
    then have "next_ref st \<le> y \<and> y < next_ref st1" by simp
    with band have b: "kind (nodes st' y) = kind (nodes st1 y)" "name (nodes st' y) = name (nodes st1 y)"
        "children (nodes st' y) = children (nodes st1 y)" "valref (nodes st' y) = valref (nodes st1 y)"
      by simp_all
    from a nx show "r < next_ref st \<and> next_ref st \<le> y \<and> y < next_ref st' \<and>
         kind (nodes st' y) = kind (nodes st r) \<and>
         (r \<noteq> s \<longrightarrow> name (nodes st' y) = name (nodes st r)) \<and>
         (if kind (nodes st r) = ValueNode
          then next_val st \<le> valref (nodes st' y) \<and>
               vals st' (valref (nodes st' y)) = vals st (valref (nodes st r))
          else list_all2 (\<lambda>ch ch'. m ch = Some ch')
                 (children (nodes st r)) (children (nodes st' y)))"
      unfolding b vs by simp
  qed
  with ms show ?thesis unfolding copy_map_def by (rule conjI)
qed

lemma list_all2_right: "list_all2 P xs ys \<Longrightarrow> y \<in> set ys \<Longrightarrow> \<exists>x \<in> set xs. P x y"
  by (induction rule: list_all2_induct) auto

lemma list_all2_left: "list_all2 P xs ys \<Longrightarrow> x \<in> set xs \<Longrightarrow> \<exists>y \<in> set ys. P x y"
  by (induction rule: list_all2_induct) auto

lemma copy_map_kids:
  assumes "copy_map st st' s c m" and "m r = Some y" and "kind (nodes st r) \<noteq> ValueNode"
  shows "kind (nodes st' y) \<noteq> ValueNode"
    and "list_all2 (\<lambda>ch ch'. m ch = Some ch') (children (nodes st r)) (children (nodes st' y))"
proof -
  from assms(1,2) have a: "kind (nodes st' y) = kind (nodes st r) \<and>
       (if kind (nodes st r) = ValueNode
        then next_val st \<le> valref (nodes st' y) \<and>
             vals st' (valref (nodes st' y)) = vals st (valref (nodes st r))
        else list_all2 (\<lambda>ch ch'. m ch = Some ch')
               (children (nodes st r)) (children (nodes st' y)))"
    unfolding copy_map_def by blast
  with assms(3) show "kind (nodes st' y) \<noteq> ValueNode"
    and "list_all2 (\<lambda>ch ch'. m ch = Some ch') (children (nodes st r)) (children (nodes st' y))"
    by simp_all
qed

lemma copy_map_kind:
  assumes "copy_map st st' s c m" and "m r = Some y"
  shows "kind (nodes st' y) = kind (nodes st r)"
  using assms unfolding copy_map_def by blast

lemma reaches_copy:
  assumes cm: "copy_map st st' s c m"
  shows "reaches st' c q \<Longrightarrow> \<exists>r. reaches st s r \<and> m r = Some q"
proof (induction rule: reaches.induct)
  case here
  from cm have "m s = Some c" by (simp add: copy_map_def)
  with reaches.here [of st s] show ?case by blast
next
  case (below b q)
  then obtain r where r: "reaches st s r" "m r = Some b" by blast
  from copy_map_kind [OF cm r(2)] below(2) have k: "kind (nodes st r) \<noteq> ValueNode" by simp
  from list_all2_right [OF copy_map_kids(2) [OF cm r(2) k] below(3)]
  obtain ch where ch: "ch \<in> set (children (nodes st r))" "m ch = Some q" by blast
  from reaches.below [OF r(1) k ch(1)] ch(2) show ?case by blast
qed

lemma reaches_original:
  assumes cm: "copy_map st st' s c m"
  shows "reaches st s r \<Longrightarrow> \<exists>q. reaches st' c q \<and> m r = Some q"
proof (induction rule: reaches.induct)
  case here
  from cm have "m s = Some c" by (simp add: copy_map_def)
  with reaches.here [of st' c] show ?case by blast
next
  case (below b r)
  then obtain y where y: "reaches st' c y" "m b = Some y" by blast
  note k = copy_map_kids [OF cm y(2) below(2)]
  from list_all2_left [OF k(2) below(3)]
  obtain q where q: "q \<in> set (children (nodes st' y))" "m r = Some q" by blast
  from reaches.below [OF y(1) k(1) q(1)] q(2) show ?case by blast
qed

lemma cp_copy_map:
  assumes cl: "closed st" and cp: "do_cp src dst st = Some (st', Returned)"
  shows "st' = st \<or>
      (\<exists>s m d. resolve st src (Some (cwd st)) = Inr (Some s) \<and>
         parent (nodes st' (next_ref st)) = Some d \<and>
         next_ref st \<in> set (children (nodes st' d)) \<and>
         copy_map st st' s (next_ref st) m)"
  using cp
proof (cases rule: do_cp_Returned_cases2)
  case noop
  then show ?thesis by simp
next
  case (into s dest d st1 c st2)
  from cl have cw: "cwd st < next_ref st" by (simp add: closed_def)
  from resolve_abs_closed [OF cl into(1)] cw have s: "s < next_ref st" by simp
  from resolve_abs_closed [OF cl into(2)] cw have d: "d < next_ref st" by simp
  from clone_extends [OF into(3) s] have c: "c = next_ref st" and c1: "c < next_ref st1"
    and pc: "parent (nodes st1 c) = Some d"
    by blast+
  from clone_copy_map [OF cl into(3) s] obtain m where cm: "copy_map st st1 s c m" ..
  from into(4) have st2: "st2 = st1\<lparr>nodes := (nodes st1)(d := (nodes st1 d)\<lparr>children := children (nodes st1 d) @ [c]\<rparr>)\<rparr>"
    by (auto simp: add_child_def split: if_splits)
  from d c have dc: "d \<noteq> c" by simp
  have band: "\<forall>q. next_ref st \<le> q \<and> q < next_ref st1 \<longrightarrow>
        kind (nodes st' q) = kind (nodes st1 q) \<and> name (nodes st' q) = name (nodes st1 q) \<and>
        children (nodes st' q) = children (nodes st1 q) \<and> valref (nodes st' q) = valref (nodes st1 q)"
    using d by (auto simp: into(5) st2)
  have "copy_map st st' s c m"
    by (rule copy_map_frame [OF cm band]) (simp_all add: into(5) st2)
  moreover have "parent (nodes st' c) = Some d" using dc pc by (simp add: into(5) st2)
  moreover have "c \<in> set (children (nodes st' d))" by (simp add: into(5) st2)
  ultimately have "resolve st src (Some (cwd st)) = Inr (Some s) \<and>
         parent (nodes st' (next_ref st)) = Some d \<and>
         next_ref st \<in> set (children (nodes st' d)) \<and>
         copy_map st st' s (next_ref st) m"
    using into(1) by (simp add: c)
  then show ?thesis by blast
next
  case (fresh s dest st1 c st2 d)
  from cl have cw: "cwd st < next_ref st" and rt: "root st < next_ref st"
    by (simp_all add: closed_def)
  from resolve_abs_closed [OF cl fresh(1)] cw have s: "s < next_ref st" by simp
  from clone_extends [OF fresh(2) s] have ext: "extends st st1" and c: "c = next_ref st"
    and c1: "c < next_ref st1"
    by blast+
  from clone_copy_map [OF cl fresh(2) s] obtain m where cm: "copy_map st st1 s c m" ..
  from ext rt have rt1: "root st1 < next_ref st" by (simp add: extends_def)
  from ext have le: "next_ref st \<le> next_ref st1" by (simp add: extends_def)
  have oc: "old_closed (next_ref st) st1"
    unfolding old_closed_def
  proof (intro allI impI ballI)
    fix r x
    assume r: "r < next_ref st" and x: "x \<in> set (children (nodes st1 r))"
    from ext r have "nodes st1 r = nodes st r" by (simp add: extends_def)
    with x closedD(2) [OF cl r] show "x < next_ref st" by simp
  qed
  from insert_band [OF rt1 le order_refl oc fresh(3)]
  have b2: "\<forall>q. next_ref st \<le> q \<and> q < next_ref st1 \<longrightarrow> nodes st2 q = nodes st1 q"
    and cd: "c \<in> set (children (nodes st2 d))"
    by simp_all
  from insert_attaches [OF fresh(3) le] c
  have "attaches (next_ref st) st1 st2" by simp
  then have a2: "next_ref st1 \<le> next_ref st2" "vals st2 = vals st1"
    by (simp_all add: attaches_def)
  have band: "\<forall>q. next_ref st \<le> q \<and> q < next_ref st1 \<longrightarrow>
        kind (nodes st' q) = kind (nodes st1 q) \<and> name (nodes st' q) = name (nodes st1 q) \<and>
        children (nodes st' q) = children (nodes st1 q) \<and> valref (nodes st' q) = valref (nodes st1 q)"
    using b2 by (simp add: fresh(4) set_parent_def)
  have "copy_map st st' s c m"
    by (rule copy_map_frame [OF cm band]) (simp_all add: fresh(4) set_parent_def a2)
  moreover have "parent (nodes st' c) = Some d" by (simp add: fresh(4) set_parent_def)
  moreover have "c \<in> set (children (nodes st' d))" using cd by (auto simp: fresh(4) set_parent_def)
  ultimately have "resolve st src (Some (cwd st)) = Inr (Some s) \<and>
         parent (nodes st' (next_ref st)) = Some d \<and>
         next_ref st \<in> set (children (nodes st' d)) \<and>
         copy_map st st' s (next_ref st) m"
    using fresh(1) by (simp add: c)
  then show ?thesis by blast
qed

text \<open>
  Claim C9. Let \<^verbatim>\<open>cp\<close> return normally on a closed store \<open>st\<close>, leaving \<open>st'\<close>. Then
  \<^item> every value object that existed holds what it held;
  \<^item> every node that existed is the same object with the same attributes, except at most
    one, the directory the copy is attached to, whose list of children has one new node
    more at its end: nothing is removed from any list (no pruning) and no name, parent
    or value reference changes;
  \<^item> every \<^verbatim>\<open>ValueNode\<close> made by the command refers to a value object made by the
    command, so that writing any \<open>x\<close> into that object leaves what each
    \<^verbatim>\<open>ValueNode\<close> that existed reads as it was before the command;
  \<^item> unless nothing was done (the source's full name is the destination), the source
    resolves to a node \<open>s\<close>, and the first object the command made, \<open>next_ref st\<close>, is
    its copy: it is a child of its \<^verbatim>\<open>parent\<close> in \<open>st'\<close>, and there is a map \<open>m\<close> from
    nodes of \<open>st\<close> to nodes made by the command with \<open>copy_map st st' s (next_ref st) m\<close>.
    The nodes reachable from the copy in \<open>st'\<close> are exactly the images under \<open>m\<close> of the
    nodes reachable from \<open>s\<close> in \<open>st\<close>: each is a new node, of the kind of its
    original, with the copies of the original's children as children, and each Leaf
    among them has a value object of its own that holds what the original's holds, so
    that a write through the copy changes no value read through an old node.
\<close>

theorem cp_independent_copy:
  assumes "closed st" and "do_cp src dst st = Some (st', Returned)"
  shows "(\<forall>v. v < next_val st \<longrightarrow> vals st' v = vals st v) \<and>
     (old_same (next_ref st) st st' \<or> one_gained (next_ref st) st st') \<and>
     (\<forall>q. next_ref st \<le> q \<and> q < next_ref st' \<and> kind (nodes st' q) = ValueNode \<longrightarrow>
        independent_of_old st st' q) \<and>
     (st' = st \<or>
      (\<exists>s m d. resolve st src (Some (cwd st)) = Inr (Some s) \<and>
         parent (nodes st' (next_ref st)) = Some d \<and>
         next_ref st \<in> set (children (nodes st' d)) \<and>
         copy_map st st' s (next_ref st) m \<and>
         (\<forall>q. reaches st' (next_ref st) q \<longrightarrow> (\<exists>r. reaches st s r \<and> m r = Some q)) \<and>
         (\<forall>r. reaches st s r \<longrightarrow> (\<exists>q. reaches st' (next_ref st) q \<and> m r = Some q)) \<and>
         (\<forall>q. reaches st' (next_ref st) q \<and> kind (nodes st' q) = ValueNode \<longrightarrow>
            independent_of_old st st' q)))"
proof -
  note vf = cp_values_fresh [OF assms]
  have indep: "independent_of_old st st' q"
    if q: "next_ref st \<le> q \<and> q < next_ref st' \<and> kind (nodes st' q) = ValueNode" for q
    unfolding independent_of_old_def
  proof (intro conjI allI impI)
    from vf q show "next_val st \<le> valref (nodes st' q)" by blast
  next
    fix r x
    assume r: "r < next_ref st \<and> kind (nodes st r) = ValueNode"
    then have "valref (nodes st r) < next_val st" using closedD(3) [OF assms(1)] by simp
    moreover from vf r have "valref (nodes st' r) = valref (nodes st r)" by blast
    moreover from vf q have "next_val st \<le> valref (nodes st' q)" by blast
    ultimately show "((vals st')(valref (nodes st' q) := x)) (valref (nodes st' r)) =
        vals st (valref (nodes st r))"
      using vf by auto
  qed
  have c1: "\<forall>v. v < next_val st \<longrightarrow> vals st' v = vals st v" using vf by blast
  note c2 = cp_frame_nodes [OF assms]
  have c3: "\<forall>q. next_ref st \<le> q \<and> q < next_ref st' \<and> kind (nodes st' q) = ValueNode \<longrightarrow>
        independent_of_old st st' q"
    using indep by blast
  have c4: "st' = st \<or>
      (\<exists>s m d. resolve st src (Some (cwd st)) = Inr (Some s) \<and>
         parent (nodes st' (next_ref st)) = Some d \<and>
         next_ref st \<in> set (children (nodes st' d)) \<and>
         copy_map st st' s (next_ref st) m \<and>
         (\<forall>q. reaches st' (next_ref st) q \<longrightarrow> (\<exists>r. reaches st s r \<and> m r = Some q)) \<and>
         (\<forall>r. reaches st s r \<longrightarrow> (\<exists>q. reaches st' (next_ref st) q \<and> m r = Some q)) \<and>
         (\<forall>q. reaches st' (next_ref st) q \<and> kind (nodes st' q) = ValueNode \<longrightarrow>
            independent_of_old st st' q))"
  proof (cases "st' = st")
    case True
    then show ?thesis by simp
  next
    case False
    with cp_copy_map [OF assms] obtain s m d where
      rs: "resolve st src (Some (cwd st)) = Inr (Some s)"
      and pd: "parent (nodes st' (next_ref st)) = Some d"
      and ch: "next_ref st \<in> set (children (nodes st' d))"
      and cm: "copy_map st st' s (next_ref st) m"
      by blast
    have r1: "\<forall>q. reaches st' (next_ref st) q \<longrightarrow> (\<exists>r. reaches st s r \<and> m r = Some q)"
      using reaches_copy [OF cm] by blast
    have r2: "\<forall>r. reaches st s r \<longrightarrow> (\<exists>q. reaches st' (next_ref st) q \<and> m r = Some q)"
      using reaches_original [OF cm] by blast
    have r3: "\<forall>q. reaches st' (next_ref st) q \<and> kind (nodes st' q) = ValueNode \<longrightarrow>
            independent_of_old st st' q"
    proof (intro allI impI)
      fix q assume q: "reaches st' (next_ref st) q \<and> kind (nodes st' q) = ValueNode"
      with r1 obtain r where "m r = Some q" by blast
      with cm have "next_ref st \<le> q \<and> q < next_ref st'" unfolding copy_map_def by blast
      with q show "independent_of_old st st' q" by (simp add: indep)
    qed
    from rs pd ch cm r1 r2 r3 show ?thesis
      by (intro disjI2 exI [of _ s] exI [of _ m] exI [of _ d] conjI)
  qed
  show ?thesis by (intro conjI c1 c2 c3 c4)
qed

text \<open>
  The spec's example, \<^verbatim>\<open>cp /a/b /c\<close> in the tree built from
  \<^verbatim>\<open>{"a.b.c": 1, "a.b.d": 2}\<close>. The source is node 2 and the copy is node 5, which
  \<^verbatim>\<open>/c\<close> resolves to afterwards; \<^verbatim>\<open>/c/d\<close> resolves to node 6, a child of node 5 and
  a new \<^verbatim>\<open>ValueNode\<close>, the copy of a Leaf below node 2 with the same name and the same
  value in a value object of its own; writing 7 into it leaves the value of the old
  \<^verbatim>\<open>ValueNode\<close> 3 (\<^verbatim>\<open>/a/b/d\<close>) as it was. Node 2 keeps its children 3 and 4.
\<close>

theorem cp_independent_copy_witness:
  "closed tree_abcd \<and>
   (\<exists>st'. do_cp ''/a/b'' ''/c'' tree_abcd = Some (st', Returned) \<and>
      resolve tree_abcd ''/a/b'' (Some (cwd tree_abcd)) = Inr (Some 2) \<and>
      resolve st' ''/c'' (Some (cwd st')) = Inr (Some 5) \<and>
      resolve st' ''/c/d'' (Some (cwd st')) = Inr (Some 6) \<and>
      parent (nodes st' 5) = Some 0 \<and> children (nodes st' 0) = [1, 5] \<and>
      children (nodes st' 5) = [6, 7] \<and> children (nodes st' 2) = [3, 4] \<and>
      reaches st' 5 6 \<and> kind (nodes st' 6) = ValueNode \<and>
      (\<exists>r. reaches tree_abcd 2 r \<and> kind (nodes tree_abcd r) = ValueNode \<and>
           name (nodes st' 6) = name (nodes tree_abcd r) \<and>
           vals st' (valref (nodes st' 6)) = vals tree_abcd (valref (nodes tree_abcd r))) \<and>
      next_val tree_abcd \<le> valref (nodes st' 6) \<and>
      ((vals st')(valref (nodes st' 6) := 7)) (valref (nodes st' 3)) =
        vals tree_abcd (valref (nodes tree_abcd 3)))"
proof -
  have cl: "closed tree_abcd" by code_simp
  have "map_option (\<lambda>(st', out). (out, next_ref st', kind (nodes st' 5), kind (nodes st' 6),
            children (nodes st' 0), children (nodes st' 5), children (nodes st' 2),
            resolve st' ''/c'' (Some (cwd st')), resolve st' ''/c/d'' (Some (cwd st'))))
          (do_cp ''/a/b'' ''/c'' tree_abcd) =
        Some (Returned, 8, PartialNode, ValueNode, [1, 5], [6, 7], [3, 4], Inr (Some 5), Inr (Some 6))"
    by code_simp
  then obtain st' where cp: "do_cp ''/a/b'' ''/c'' tree_abcd = Some (st', Returned)"
    and n: "next_ref st' = 8" and k5: "kind (nodes st' 5) = PartialNode"
    and k6: "kind (nodes st' 6) = ValueNode"
    and ch: "children (nodes st' 0) = [1, 5]" "children (nodes st' 5) = [6, 7]"
      "children (nodes st' 2) = [3, 4]"
    and rs: "resolve st' ''/c'' (Some (cwd st')) = Inr (Some 5)"
      "resolve st' ''/c/d'' (Some (cwd st')) = Inr (Some 6)"
    by auto
  have old: "next_ref tree_abcd = 5" "(3::nat) < next_ref tree_abcd"
    "kind (nodes tree_abcd 3) = ValueNode"
    "resolve tree_abcd ''/a/b'' (Some (cwd tree_abcd)) = Inr (Some 2)"
    by code_simp+
  from n old(1) have ne: "st' \<noteq> tree_abcd" by auto
  have re: "reaches st' 5 6"
    by (rule reaches.below [OF reaches.here]) (simp_all add: k5 ch)
  note main = cp_independent_copy [OF cl cp, unfolded old(1)]
  from main ne obtain s m d where
    s: "resolve tree_abcd ''/a/b'' (Some (cwd tree_abcd)) = Inr (Some s)"
    and pd: "parent (nodes st' 5) = Some d" "5 \<in> set (children (nodes st' d))"
    and cm: "copy_map tree_abcd st' s 5 m"
    and r1: "\<forall>q. reaches st' 5 q \<longrightarrow> (\<exists>r. reaches tree_abcd s r \<and> m r = Some q)"
    and r3: "\<forall>q. reaches st' 5 q \<and> kind (nodes st' q) = ValueNode \<longrightarrow>
            independent_of_old tree_abcd st' q"
    by blast
  from s old(4) have s2: "s = 2" by simp
  from r1 re obtain r where r: "reaches tree_abcd 2 r" "m r = Some 6" unfolding s2 by blast
  from cm r(2) have f: "kind (nodes st' 6) = kind (nodes tree_abcd r)"
    "r \<noteq> s \<longrightarrow> name (nodes st' 6) = name (nodes tree_abcd r)"
    "if kind (nodes tree_abcd r) = ValueNode
     then next_val tree_abcd \<le> valref (nodes st' 6) \<and>
          vals st' (valref (nodes st' 6)) = vals tree_abcd (valref (nodes tree_abcd r))
     else list_all2 (\<lambda>ch ch'. m ch = Some ch')
            (children (nodes tree_abcd r)) (children (nodes st' 6))"
    unfolding copy_map_def by blast+
  from cm have "m s = Some 5" by (simp add: copy_map_def)
  with r(2) have "r \<noteq> s" by auto
  with f k6 have g: "kind (nodes tree_abcd r) = ValueNode"
    "name (nodes st' 6) = name (nodes tree_abcd r)"
    "vals st' (valref (nodes st' 6)) = vals tree_abcd (valref (nodes tree_abcd r))"
    by simp_all
  from r3 re k6 have "independent_of_old tree_abcd st' 6" by blast
  with old(2,3) have i: "next_val tree_abcd \<le> valref (nodes st' 6)"
    "((vals st')(valref (nodes st' 6) := 7)) (valref (nodes st' 3)) =
        vals tree_abcd (valref (nodes tree_abcd 3))"
    unfolding independent_of_old_def by blast+
  have p0: "parent (nodes st' 5) = Some 0"
  proof -
    have "map_option (\<lambda>(st', out). parent (nodes st' 5)) (do_cp ''/a/b'' ''/c'' tree_abcd) = Some (Some 0)"
      by code_simp
    with cp show ?thesis by simp
  qed
  from r g have ex: "\<exists>r. reaches tree_abcd 2 r \<and> kind (nodes tree_abcd r) = ValueNode \<and>
           name (nodes st' 6) = name (nodes tree_abcd r) \<and>
           vals st' (valref (nodes st' 6)) = vals tree_abcd (valref (nodes tree_abcd r))"
    by blast
  show ?thesis
    by (intro conjI exI [of _ st'] cl cp old(4) rs p0 ch re k6 ex i)
qed

section \<open>Delete and its pruning\<close>

lemma remove1_Nil_iff: "c \<in> set xs \<Longrightarrow> remove1 c xs = [] \<longleftrightarrow> xs = [c]"
  by (cases xs) (auto split: if_splits)

lemma detach_remove_from_parent:
  assumes "parent (nodes st c) = Some p" and "kind (nodes st p) \<noteq> ValueNode"
    and "c \<in> set (children (nodes st p))"
  shows "detach c st = Inr (remove_from_parent c st, p)"
  using assms by (simp add: detach_def remove_from_parent_def)

lemma prune_loop_pruned:
  assumes "attached_via st0 c (p # ps)" and "distinct (c # p # ps)"
    and "nodes s p = (nodes st0 p)\<lparr>children := remove1 c (children (nodes st0 p))\<rparr>"
    and "\<forall>q \<in> set ps. nodes s q = nodes st0 q"
  shows "prune_loop p s = Some (fold remove_from_parent (pruned st0 c (p # ps)) s, Inr ())"
  using assms
proof (induction ps arbitrary: c p s)
  case Nil
  then have "is_root s p" "kind (nodes s p) \<noteq> ValueNode" "is_root st0 p"
    by (simp_all add: is_root_def)
  then show ?case by (subst prune_loop.simps) simp
next
  case (Cons g ps)
  from Cons.prems(1) have link: "parent (nodes st0 c) = Some p" "c \<in> set (children (nodes st0 p))"
    "kind (nodes st0 p) \<noteq> ValueNode" and up: "attached_via st0 p (g # ps)"
    by simp_all
  from up have pg: "parent (nodes st0 p) = Some g" "g \<noteq> p" "p \<in> set (children (nodes st0 g))"
    "kind (nodes st0 g) \<noteq> ValueNode" by simp_all
  from Cons.prems(3) have sp: "kind (nodes s p) = kind (nodes st0 p)"
    "parent (nodes s p) = parent (nodes st0 p)"
    "children (nodes s p) = remove1 c (children (nodes st0 p))"
    by simp_all
  from sp(2) have ir: "is_root s p = is_root st0 p" by (simp add: is_root_def)
  from link(2) sp(3) have empty: "children (nodes s p) = [] \<longleftrightarrow> children (nodes st0 p) = [c]"
    by (simp add: remove1_Nil_iff)
  show ?case
  proof (cases "kind (nodes st0 p) = PartialNode \<and> \<not> is_root st0 p \<and> children (nodes st0 p) = [c]")
    case False
    with sp(1) ir empty link(3) show ?thesis
      by (subst prune_loop.simps) auto
  next
    case True
    from Cons.prems(4) have sg: "nodes s g = nodes st0 g" by simp
    with pg sp(2) have det: "detach p s = Inr (remove_from_parent p s, g)"
      by (intro detach_remove_from_parent) simp_all
    let ?s1 = "remove_from_parent p s"
    from sp(2) pg(1) have s1: "?s1 = s\<lparr>nodes := (nodes s)
               (g := (nodes s g)\<lparr>children := remove1 p (children (nodes s g))\<rparr>)\<rparr>"
      by (simp add: remove_from_parent_def)
    from Cons.prems(2) have dist: "distinct (p # g # ps)" and gps: "g \<notin> set ps" by simp_all
    have a: "nodes ?s1 g = (nodes st0 g)\<lparr>children := remove1 p (children (nodes st0 g))\<rparr>"
      by (simp add: s1 sg)
    have b: "\<forall>q \<in> set ps. nodes ?s1 q = nodes st0 q"
      using Cons.prems(4) gps by (auto simp: s1)
    from Cons.IH [OF up dist a b]
    have "prune_loop g ?s1 = Some (fold remove_from_parent (pruned st0 p (g # ps)) ?s1, Inr ())" .
    with True sp(1) ir empty det show ?thesis
      by (subst prune_loop.simps) simp
  qed
qed

text \<open>
  Claim C3. Let the path resolve to a node \<open>n\<close> that is not the root and is attached
  to the root through the distinct ancestors \<open>ps\<close>. Then \<^verbatim>\<open>rm\<close> returns normally,
  marks the state dirty, and the store it leaves is the store it was given with \<open>n\<close>
  taken out of its parent's children and then each pruned ancestor taken out of its
  parent's children: exactly the ancestors \<open>pruned st n ps\<close>, the now-childless
  JoinedGroups below the first ancestor that is non-empty, not a JoinedGroup, or the
  root. Nothing else changes. Every pruned node is a \<^verbatim>\<open>PartialNode\<close> and not the
  root, so a Group (\<^verbatim>\<open>DictNode\<close>) is never pruned, empty or not.
\<close>

theorem rm_prunes_joined_groups:
  assumes "resolve st path (Some (cwd st)) = Inr (Some n)" and "\<not> is_root st n"
    and "attached_via st n ps" and "distinct (n # ps)"
  shows "do_rm path st =
           Some ((fold remove_from_parent (n # pruned st n ps) st)\<lparr>dirty := True\<rparr>, Returned) \<and>
         (\<forall>p \<in> set (pruned st n ps). kind (nodes st p) = PartialNode \<and> \<not> is_root st p)"
proof -
  from assms(2,3) obtain p ps' where ps: "ps = p # ps'" by (cases ps) auto
  from assms(3) ps have link: "parent (nodes st n) = Some p" "n \<in> set (children (nodes st p))"
    "kind (nodes st p) \<noteq> ValueNode" by simp_all
  then have det: "detach n st = Inr (remove_from_parent n st, p)"
    by (intro detach_remove_from_parent)
  let ?s1 = "remove_from_parent n st"
  from link(1) have s1: "?s1 = st\<lparr>nodes := (nodes st)
               (p := (nodes st p)\<lparr>children := remove1 n (children (nodes st p))\<rparr>)\<rparr>"
    by (simp add: remove_from_parent_def)
  from assms(4) ps have "p \<notin> set ps'" by simp
  then have b: "\<forall>q \<in> set ps'. nodes ?s1 q = nodes st q" by (auto simp: s1)
  have a: "nodes ?s1 p = (nodes st p)\<lparr>children := remove1 n (children (nodes st p))\<rparr>"
    by (simp add: s1)
  from prune_loop_pruned [OF _ _ a b] assms(3,4) ps
  have "prune_loop p ?s1 = Some (fold remove_from_parent (pruned st n ps) ?s1, Inr ())"
    by simp
  with det assms(1,2) have 1: "do_rm path st =
           Some ((fold remove_from_parent (n # pruned st n ps) st)\<lparr>dirty := True\<rparr>, Returned)"
    by (simp add: do_rm_def rm_node_def)
  have 2: "\<forall>p \<in> set (pruned st c qs). kind (nodes st p) = PartialNode \<and> \<not> is_root st p" for c qs
    by (induction qs arbitrary: c) auto
  from 1 2 show ?thesis by blast
qed

text \<open>
  The spec's example. In the tree built from \<^verbatim>\<open>{"a.b.c": 1, "a.b.d": 2}\<close>,
  \<^verbatim>\<open>rm /a/b/c\<close> prunes nothing: \<^verbatim>\<open>/a/b\<close> stays with its child \<^verbatim>\<open>d\<close>. Then
  \<^verbatim>\<open>rm /a/b/d\<close> prunes \<^verbatim>\<open>/a/b\<close> and \<^verbatim>\<open>/a\<close> and leaves the root without
  children. In the tree built from \<^verbatim>\<open>{"g": {"x": 1}}\<close>, \<^verbatim>\<open>rm /g/x\<close> leaves the Group
  \<^verbatim>\<open>/g\<close> empty and in place.
\<close>

theorem rm_prunes_joined_groups_witness:
  "resolve tree_abcd ''/a/b/c'' (Some (cwd tree_abcd)) = Inr (Some 4) \<and>
   \<not> is_root tree_abcd 4 \<and> attached_via tree_abcd 4 [2, 1, 0] \<and> distinct [4, 2, 1, 0::nat] \<and>
   pruned tree_abcd 4 [2, 1, 0] = [] \<and>
   do_rm ''/a/b/c'' tree_abcd =
     Some ((fold remove_from_parent [4] tree_abcd)\<lparr>dirty := True\<rparr>, Returned) \<and>
   children (nodes tree_abd 0) = [1] \<and> children (nodes tree_abd 1) = [2] \<and>
   children (nodes tree_abd 2) = [3] \<and>
   resolve tree_abd ''/a/b/d'' (Some (cwd tree_abd)) = Inr (Some 3) \<and>
   serialize tree_abd = Some [(''a.b.d'', VLeaf 2)] \<and>
   \<not> is_root tree_abd 3 \<and> attached_via tree_abd 3 [2, 1, 0] \<and> distinct [3, 2, 1, 0::nat] \<and>
   pruned tree_abd 3 [2, 1, 0] = [2, 1] \<and>
   do_rm ''/a/b/d'' tree_abd =
     Some ((fold remove_from_parent [3, 2, 1] tree_abd)\<lparr>dirty := True\<rparr>, Returned) \<and>
   children (nodes (fold remove_from_parent [3, 2, 1] tree_abd) 0) = [] \<and>
   serialize (fold remove_from_parent [3, 2, 1] tree_abd) = Some [] \<and>
   resolve tree_gx ''/g/x'' (Some (cwd tree_gx)) = Inr (Some 2) \<and>
   \<not> is_root tree_gx 2 \<and> attached_via tree_gx 2 [1, 0] \<and> distinct [2, 1, 0::nat] \<and>
   kind (nodes tree_gx 1) = DictNode \<and> pruned tree_gx 2 [1, 0] = [] \<and>
   do_rm ''/g/x'' tree_gx =
     Some ((fold remove_from_parent [2] tree_gx)\<lparr>dirty := True\<rparr>, Returned) \<and>
   children (nodes (fold remove_from_parent [2] tree_gx) 1) = [] \<and>
   children (nodes (fold remove_from_parent [2] tree_gx) 0) = [1]"
proof -
  have a1: "resolve tree_abcd ''/a/b/c'' (Some (cwd tree_abcd)) = Inr (Some 4)" by code_simp
  have a2: "\<not> is_root tree_abcd 4" by code_simp
  have a3: "attached_via tree_abcd 4 [2, 1, 0]" by code_simp
  have a4: "distinct [4, 2, 1, 0::nat]" by simp
  have a5: "pruned tree_abcd 4 [2, 1, 0] = []" by code_simp
  have a6: "children (nodes tree_abd 0) = [1]" "children (nodes tree_abd 1) = [2]"
    "children (nodes tree_abd 2) = [3]" "serialize tree_abd = Some [(''a.b.d'', VLeaf 2)]"
    by code_simp+
  have b1: "resolve tree_abd ''/a/b/d'' (Some (cwd tree_abd)) = Inr (Some 3)" by code_simp
  have b2: "\<not> is_root tree_abd 3" by code_simp
  have b3: "attached_via tree_abd 3 [2, 1, 0]" by code_simp
  have b4: "distinct [3, 2, 1, 0::nat]" by simp
  have b5: "pruned tree_abd 3 [2, 1, 0] = [2, 1]" by code_simp
  have b6: "children (nodes (fold remove_from_parent [3, 2, 1] tree_abd) 0) = []"
    "serialize (fold remove_from_parent [3, 2, 1] tree_abd) = Some []" by code_simp+
  have c1: "resolve tree_gx ''/g/x'' (Some (cwd tree_gx)) = Inr (Some 2)" by code_simp
  have c2: "\<not> is_root tree_gx 2" by code_simp
  have c3: "attached_via tree_gx 2 [1, 0]" by code_simp
  have c4: "distinct [2, 1, 0::nat]" by simp
  have c5: "kind (nodes tree_gx 1) = DictNode" "pruned tree_gx 2 [1, 0] = []" by code_simp+
  have c6: "children (nodes (fold remove_from_parent [2] tree_gx) 1) = []"
    "children (nodes (fold remove_from_parent [2] tree_gx) 0) = [1]" by code_simp+
  from rm_prunes_joined_groups [OF a1 a2 a3 a4]
  have ra: "do_rm ''/a/b/c'' tree_abcd =
     Some ((fold remove_from_parent [4] tree_abcd)\<lparr>dirty := True\<rparr>, Returned)"
    unfolding a5 by (rule conjunct1)
  from rm_prunes_joined_groups [OF b1 b2 b3 b4]
  have rb: "do_rm ''/a/b/d'' tree_abd =
     Some ((fold remove_from_parent [3, 2, 1] tree_abd)\<lparr>dirty := True\<rparr>, Returned)"
    unfolding b5 by (rule conjunct1)
  from rm_prunes_joined_groups [OF c1 c2 c3 c4]
  have rc: "do_rm ''/g/x'' tree_gx =
     Some ((fold remove_from_parent [2] tree_gx)\<lparr>dirty := True\<rparr>, Returned)"
    unfolding c5 by (rule conjunct1)
  show ?thesis
    by (intro conjI) (fact a1 a2 a3 a4 a5 a6 b1 b2 b3 b4 b5 b6 c1 c2 c3 c4 c5 c6 ra rb rc)+
qed

end
